theory Spec2Isabelle
  imports Main
begin

section \<open>Characters, Python built-ins and errors\<close>

text \<open>
  Python strings are modelled as \<^typ>\<open>string\<close>: a character is a code point from 0 to
  255 (Latin-1). The patterns of the source are compiled without \<^verbatim>\<open>re.ASCII\<close>, so the
  character classes below are the ones Python's \<^verbatim>\<open>re\<close> module uses on these code points:
  \<^item> \<^verbatim>\<open>\s\<close> is 9..13, 28..32, 133 (next line) and 160 (no-break space);
  \<^item> \<^verbatim>\<open>\d\<close> is 0-9 (no other decimal digit lies below 256);
  \<^item> \<^verbatim>\<open>\w\<close> is the ASCII letters, digits and underscore, and beyond 127 the code points
    170, 178, 179, 181, 185, 186, 188..190, 192..214, 216..246 and 248..255 (the
    Latin-1 letters, superscript digits and fractions);
  \<^item> \<^verbatim>\<open>[A-Z]\<close> and \<^verbatim>\<open>[a-zA-Z]\<close> are the ASCII letters;
  \<^item> \<^verbatim>\<open>.\<close> is every character but the line feed.

  Python integers are \<^typ>\<open>int\<close>. Every \<^verbatim>\<open>raise\<close> of the source is a value of \<open>error\<close>.
\<close>

datatype error = TypeError | ValueError

definition ord :: "char \<Rightarrow> int" where
  "ord c = of_char c"

definition is_AZ :: "char \<Rightarrow> bool" where
  "is_AZ c = (65 \<le> ord c \<and> ord c \<le> 90)"

definition is_az :: "char \<Rightarrow> bool" where
  "is_az c = (97 \<le> ord c \<and> ord c \<le> 122)"

definition is_digit :: "char \<Rightarrow> bool" where
  "is_digit c = (48 \<le> ord c \<and> ord c \<le> 57)"

definition is_word :: "char \<Rightarrow> bool" where
  "is_word c =
     (is_AZ c \<or> is_az c \<or> is_digit c \<or> ord c = 95 \<or>
      ord c = 170 \<or> ord c = 178 \<or> ord c = 179 \<or> ord c = 181 \<or> ord c = 185 \<or> ord c = 186 \<or>
      (188 \<le> ord c \<and> ord c \<le> 190) \<or> (192 \<le> ord c \<and> ord c \<le> 214) \<or>
      (216 \<le> ord c \<and> ord c \<le> 246) \<or> (248 \<le> ord c \<and> ord c \<le> 255))"

definition is_space :: "char \<Rightarrow> bool" where
  "is_space c =
     ((9 \<le> ord c \<and> ord c \<le> 13) \<or> (28 \<le> ord c \<and> ord c \<le> 32) \<or>
      ord c = 133 \<or> ord c = 160)"

definition is_dot :: "char \<Rightarrow> bool" where
  "is_dot c = (ord c \<noteq> 10)"

text \<open>
  \<^verbatim>\<open>str.upper()\<close>, used by \<^verbatim>\<open>col_to_int\<close> only, on the ASCII letters. The theorems apply
  \<^verbatim>\<open>col_to_int\<close> to groups of the pattern and to results of \<^verbatim>\<open>int_to_col\<close>, which are
  capitals.
\<close>

definition upper :: "string \<Rightarrow> string" where
  "upper s = map (\<lambda>c. if is_az c then char_of (ord c - 32) else c) s"

text \<open>
  \<^verbatim>\<open>chr(n)\<close> raises ValueError for a negative argument. The only caller passes
  \<open>d + 64\<close> with \<open>d \<le> 26\<close>, so the upper limit of \<^verbatim>\<open>chr\<close> is never reached.
\<close>

definition chr :: "int \<Rightarrow> error + char" where
  "chr n = (if n < 0 then Inl ValueError else Inr (char_of n))"

text \<open>
  \<^verbatim>\<open>int(s)\<close> on a string of decimal digits, and \<^verbatim>\<open>str(n)\<close> on an integer. The limit
  CPython puts on the number of digits of such a conversion (4300 by default, ValueError
  beyond it) is not part of the model.
\<close>

definition int_of_str :: "string \<Rightarrow> int" where
  "int_of_str s = foldl (\<lambda>a c. 10 * a + (ord c - 48)) 0 s"

fun str_nat :: "nat \<Rightarrow> string" where
  "str_nat n = (if n < 10 then [char_of (48 + n)] else str_nat (n div 10) @ [char_of (48 + n mod 10)])"

declare str_nat.simps [simp del]

definition str_int :: "int \<Rightarrow> string" where
  "str_int i = (if i < 0 then CHR ''-'' # str_nat (nat (- i)) else str_nat (nat i))"

section \<open>Column codec\<close>

definition GoogleSheetsMaxColumns :: int where
  "GoogleSheetsMaxColumns = 18278"

text \<open>
  \<^verbatim>\<open>_a1_col_re.match(c)\<close> for the pattern \<^verbatim>\<open>^[A-Z]{1,3}$\<close>: one to three capitals, taken
  greedily, followed by the end of the string or by one final line feed (what \<^verbatim>\<open>$\<close>
  accepts). Giving a capital back never helps, the next character would be a capital.
\<close>

definition a1_col_re :: "string \<Rightarrow> bool" where
  "a1_col_re c =
     (let u = takeWhile is_AZ (take 3 c); rest = drop (length u) c
      in u \<noteq> [] \<and> (rest = [] \<or> rest = [CHR 0x0A]))"

definition col_to_int :: "string \<Rightarrow> int" where
  "col_to_int column =
     (let c = upper column
      in if a1_col_re c
         then foldl (\<lambda>num (i, v). num + (ord v - 64) * 26 ^ i) 0 (enumerate 0 (rev c))
         else 0)"

text \<open>One round of the loop \<^verbatim>\<open>for p in [2,1,0]\<close> of \<^verbatim>\<open>int_to_col\<close> on the pair \<open>(col, i)\<close>.\<close>

definition int_to_col_step :: "string \<times> int \<Rightarrow> nat \<Rightarrow> error + string \<times> int" where
  "int_to_col_step st p =
     (case st of (col, i) \<Rightarrow>
        let d = i div 26 ^ p; r = i mod 26 ^ p
        in if d \<noteq> 0
           then if d > 26
                then Inr (col @ ''Z'', r + (d - 26) * 26 ^ p)
                else (case chr (d + 64) of
                        Inl e \<Rightarrow> Inl e
                      | Inr ch \<Rightarrow> Inr (col @ [ch], r))
           else Inr (col, r))"

fun int_to_col_loop :: "string \<times> int \<Rightarrow> nat list \<Rightarrow> error + string \<times> int" where
  "int_to_col_loop st [] = Inr st"
| "int_to_col_loop st (p # ps) =
     (case int_to_col_step st p of
        Inl e \<Rightarrow> Inl e
      | Inr st' \<Rightarrow> int_to_col_loop st' ps)"

definition int_to_col :: "int \<Rightarrow> error + string" where
  "int_to_col index =
     (if index \<le> GoogleSheetsMaxColumns
      then (case int_to_col_loop ([], index) [2, 1, 0] of
              Inl e \<Rightarrow> Inl e
            | Inr (col, i) \<Rightarrow> Inr col)
      else Inr [])"

section \<open>The regular expressions\<close>

text \<open>
  The alternation \<^verbatim>\<open>\w+|\".+\"|\'.+\'\<close> matching the whole of \<open>t\<close>: a run of word
  characters, or a quote, at least one character other than a line feed, and the same
  quote again.
\<close>

definition quoted :: "char \<Rightarrow> string \<Rightarrow> bool" where
  "quoted q t = (3 \<le> length t \<and> hd t = q \<and> last t = q \<and> list_all is_dot (butlast (tl t)))"

definition sheet_tok :: "string \<Rightarrow> bool" where
  "sheet_tok t = ((t \<noteq> [] \<and> list_all is_word t) \<or> quoted (CHR 0x22) t \<or> quoted (CHR 0x27) t)"

text \<open>
  \<^verbatim>\<open>_a1_sheet_re.match(s)\<close>, pattern \<^verbatim>\<open>^\s*(\w+|\".+\"|\'.+\')\<close>: a match of a prefix. After
  the white space comes a word character, or a quote that is closed again on the same
  line with at least one character in between.
\<close>

definition a1_sheet_re :: "string \<Rightarrow> bool" where
  "a1_sheet_re s =
     (case dropWhile is_space s of
        [] \<Rightarrow> False
      | c # cs \<Rightarrow> is_word c \<or>
          ((c = CHR 0x22 \<or> c = CHR 0x27) \<and> c \<in> set (tl (takeWhile is_dot cs))))"

text \<open>
  The second pattern of \<^verbatim>\<open>extract_a1\<close>, \<^verbatim>\<open>_a1_sheet_re.pattern + '$'\<close>, with
  \<^verbatim>\<open>m.group(0)\<close> as result: the leading white space and the title; \<^verbatim>\<open>$\<close> also accepts
  one final line feed, which is not part of the match.
\<close>

definition sheet_only_re :: "string \<Rightarrow> string option" where
  "sheet_only_re s =
     (let ws = takeWhile is_space s; r = dropWhile is_space s;
          t = (if r \<noteq> [] \<and> last r = CHR 0x0A then butlast r else r)
      in if sheet_tok t then Some (ws @ t) else None)"

text \<open>
  \<^verbatim>\<open>re.match(r"^[a-zA-Z]+\w*$", s)\<close> of \<^verbatim>\<open>generate_a1\<close>: a letter, then word characters up
  to the end or to one final line feed.
\<close>

definition bare_title_re :: "string \<Rightarrow> bool" where
  "bare_title_re s =
     (let t = (if s \<noteq> [] \<and> last s = CHR 0x0A then butlast s else s)
      in t \<noteq> [] \<and> (is_AZ (hd t) \<or> is_az (hd t)) \<and> list_all is_word t)"

text \<open>
  The bounds group of \<^verbatim>\<open>_A1REGEXSTR\<close>,
  \<^verbatim>\<open>(?P<start_col>[A-Z]{0,3})?(?P<start_row>\d+)?:(?P<end_col>[A-Z]{0,3})?(?P<end_row>\d+)?\<close>,
  matched at the front of \<open>q\<close>: the four groups and the rest of the string. Each
  quantifier is greedy, and giving a character back never leads to a match: the next
  item of the pattern would have to accept a capital or a digit that it cannot accept.
  A group that did not take part and a group that matched the empty string are both
  false for the caller; both are the empty string here.
\<close>

definition bounds_group :: "string \<Rightarrow> (string \<times> string \<times> string \<times> string \<times> string) option" where
  "bounds_group q =
     (let sc = takeWhile is_AZ (take 3 q); q1 = drop (length sc) q;
          sr = takeWhile is_digit q1; q2 = drop (length sr) q1
      in case q2 of
           [] \<Rightarrow> None
         | c # q3 \<Rightarrow>
             if c = CHR 0x3A
             then let ec = takeWhile is_AZ (take 3 q3); q4 = drop (length ec) q3;
                      er = takeWhile is_digit q4; q5 = drop (length er) q4
                  in Some (sc, sr, ec, er, q5)
             else None)"

text \<open>The tail of the pattern, \<^verbatim>\<open>(bounds)?\s*$\<close>: with the bounds group, else without it.\<close>

definition bounds_re :: "string \<Rightarrow> (string \<times> string \<times> string \<times> string) option" where
  "bounds_re q =
     (case (case bounds_group q of
              Some (sc, sr, ec, er, q5) \<Rightarrow> if list_all is_space q5 then Some (sc, sr, ec, er) else None
            | None \<Rightarrow> None) of
        Some g \<Rightarrow> Some g
      | None \<Rightarrow> if list_all is_space q then Some ([], [], [], []) else None)"

text \<open>
  The sheet group \<^verbatim>\<open>((?P<sheet>\w+|\".+\"|\'.+\')!)?\<close> followed by the tail. The tail
  matches capitals, digits, one colon and white space only, so the \<^verbatim>\<open>!\<close> that closes the
  sheet group can only be the last \<^verbatim>\<open>!\<close> of the string, whichever alternative is taken
  and however far \<^verbatim>\<open>.+\<close> runs.
\<close>

definition sheet_group :: "string \<Rightarrow> (string \<times> string \<times> string \<times> string \<times> string) option" where
  "sheet_group r =
     (if CHR 0x21 \<in> set r
      then let q = rev (takeWhile (\<lambda>c. c \<noteq> CHR 0x21) (rev r));
               t = take (length r - length q - 1) r
           in if sheet_tok t
              then (case bounds_re q of
                      Some (sc, sr, ec, er) \<Rightarrow> Some (t, sc, sr, ec, er)
                    | None \<Rightarrow> None)
              else None
      else None)"

text \<open>
  \<^verbatim>\<open>_a1_re.match(s)\<close>: the groups sheet, start_col, start_row, end_col, end_row of
  \<^verbatim>\<open>_A1REGEXSTR\<close>. The optional sheet group is tried first; the match without it
  comes second.
\<close>

definition a1_re :: "string \<Rightarrow> (string \<times> string \<times> string \<times> string \<times> string) option" where
  "a1_re s =
     (let r = dropWhile is_space s
      in case sheet_group r of
           Some g \<Rightarrow> Some g
         | None \<Rightarrow>
             (case bounds_re r of
                Some (sc, sr, ec, er) \<Rightarrow> Some ([], sc, sr, ec, er)
              | None \<Rightarrow> None))"

section \<open>Generating, extracting and validating\<close>

text \<open>A column argument of \<^verbatim>\<open>generate_a1\<close> and \<^verbatim>\<open>update\<close> is a string or an integer.\<close>

datatype col_arg = ColStr string | ColInt int

definition truthy :: "col_arg \<Rightarrow> bool" where
  "truthy c = (case c of ColStr s \<Rightarrow> s \<noteq> [] | ColInt i \<Rightarrow> i \<noteq> 0)"

text \<open>\<^verbatim>\<open>cls.int_to_col(c) if isinstance(c,int) else str(c)\<close>\<close>

definition col_label :: "col_arg \<Rightarrow> error + string" where
  "col_label c = (case c of ColInt i \<Rightarrow> int_to_col i | ColStr s \<Rightarrow> Inr s)"

text \<open>
  The first step of \<^verbatim>\<open>generate_a1\<close>, on a title that \<^verbatim>\<open>_a1_sheet_re\<close> matched (it is not
  empty then): a title that does not start with a quote and is not a bare word is
  wrapped in double quotes.
\<close>

definition quote_title :: "string \<Rightarrow> string" where
  "quote_title s =
     (if \<not> (hd s = CHR 0x27 \<or> hd s = CHR 0x22) \<and> \<not> bare_title_re s
      then [CHR 0x22] @ s @ [CHR 0x22] else s)"

text \<open>
  \<^verbatim>\<open>generate_a1\<close>. In the branch without a start column the source adds the integer
  \<^verbatim>\<open>sr\<close> to the string \<^verbatim>\<open>a1\<close>, which raises TypeError.
\<close>

definition generate_a1 :: "string \<Rightarrow> col_arg \<Rightarrow> int \<Rightarrow> col_arg \<Rightarrow> int \<Rightarrow> error + string" where
  "generate_a1 sheet_arg start_col_arg start_row_arg end_col_arg end_row_arg =
     (if a1_sheet_re sheet_arg
      then let t = quote_title sheet_arg
           in if truthy start_col_arg
              then (case col_label start_col_arg of
                      Inl e \<Rightarrow> Inl e
                    | Inr sc \<Rightarrow>
                        if a1_col_re sc
                        then let t1 = (if t \<noteq> [] then t @ [CHR 0x21] else t) @ sc;
                                 t2 = (if start_row_arg \<noteq> 0 \<and> start_row_arg > 0
                                       then t1 @ str_int start_row_arg else t1)
                             in if truthy end_col_arg
                                then (case col_label end_col_arg of
                                        Inl e \<Rightarrow> Inl e
                                      | Inr ec \<Rightarrow>
                                          if a1_col_re ec
                                          then let t3 = t2 @ [CHR 0x3A] @ ec
                                               in Inr (if end_row_arg \<noteq> 0 \<and> end_row_arg > 0
                                                       then t3 @ str_int end_row_arg else t3)
                                          else Inr t2)
                                else Inr t2
                        else Inr t)
              else if start_row_arg \<noteq> 0
                   then (if start_row_arg > 0 then Inl TypeError else Inr t)
                   else Inr t
      else Inr [])"

definition extract_a1 :: "string \<Rightarrow> string \<times> string \<times> int \<times> string \<times> int" where
  "extract_a1 s =
     (case a1_re s of
        Some (g_sheet, g_sc, g_sr, g_ec, g_er) \<Rightarrow>
          let sr = (if g_sr \<noteq> [] then int_of_str g_sr else 0);
              er = (if g_er \<noteq> [] then int_of_str g_er else 0)
          in if sr \<noteq> 0 \<and> g_sc = [] then (g_sheet, ''A'', sr, g_ec, er)
             else if g_sc \<noteq> [] \<and> sr = 0 then (g_sheet, g_sc, 1, g_ec, er)
             else (g_sheet, g_sc, sr, g_ec, er)
      | None \<Rightarrow>
          (case sheet_only_re s of
             Some g0 \<Rightarrow> (g0, [], 0, [], 0)
           | None \<Rightarrow> ([], [], 0, [], 0)))"

definition valid_dimensions :: "string \<times> string \<times> int \<times> string \<times> int \<Rightarrow> bool" where
  "valid_dimensions dims =
     (case dims of (title, sc, sr, ec, er) \<Rightarrow>
        if sc = [] \<and> sr = 0 then \<not> (ec \<noteq> [] \<or> er \<noteq> 0 \<or> title = [])
        else if sc \<noteq> [] \<and> ec \<noteq> [] then col_to_int ec \<ge> col_to_int sc
        else True)"

section \<open>The range object\<close>

record a1_notation =
  a1 :: string
  sheet :: string
  start_col :: string
  end_col :: string
  start_col_int :: int
  end_col_int :: int
  start_row :: int
  end_row :: int

definition reset :: a1_notation where
  "reset = \<lparr>a1 = [], sheet = [], start_col = [], end_col = [],
            start_col_int = 0, end_col_int = 0, start_row = 0, end_row = 0\<rparr>"

text \<open>\<^verbatim>\<open>set_a1\<close> returns the success flag and the object after the call.\<close>

definition set_a1 :: "a1_notation \<Rightarrow> string \<Rightarrow> bool \<times> a1_notation" where
  "set_a1 self s =
     (let dims = extract_a1 s
      in if valid_dimensions dims
         then (case dims of (sh, sc, sr, ec, er) \<Rightarrow>
                 (True, \<lparr>a1 = s, sheet = sh, start_col = sc, end_col = ec,
                         start_col_int = col_to_int sc, end_col_int = col_to_int ec,
                         start_row = sr, end_row = er\<rparr>))
         else (False, self))"

text \<open>The constructor \<^verbatim>\<open>GoogleSheetsA1Notation(a1)\<close>.\<close>

definition GoogleSheetsA1Notation :: "string \<Rightarrow> a1_notation" where
  "GoogleSheetsA1Notation s = (if s \<noteq> [] then snd (set_a1 reset s) else reset)"

definition valid :: "a1_notation \<Rightarrow> bool" where
  "valid self = (a1 self \<noteq> [])"

text \<open>\<^verbatim>\<open>__str__\<close> and \<^verbatim>\<open>__eq__\<close>\<close>

definition str_a1 :: "a1_notation \<Rightarrow> string" where
  "str_a1 self = (if a1 self \<noteq> [] then a1 self else ''<invalid>'')"

definition eq_a1 :: "a1_notation \<Rightarrow> string \<Rightarrow> bool" where
  "eq_a1 self v = (a1 self = v)"

definition rows_bounded :: "a1_notation \<Rightarrow> bool" where
  "rows_bounded self = (start_row self \<noteq> 0 \<and> end_row self \<noteq> 0)"

definition cols_bounded :: "a1_notation \<Rightarrow> bool" where
  "cols_bounded self = (start_col self \<noteq> [] \<and> end_col self \<noteq> [])"

definition bounded :: "a1_notation \<Rightarrow> bool" where
  "bounded self = (rows_bounded self \<and> cols_bounded self)"

text \<open>\<^verbatim>\<open>__len__\<close>\<close>

definition len_a1 :: "a1_notation \<Rightarrow> int" where
  "len_a1 self =
     (if bounded self
      then (end_row self - start_row self) * ((end_col_int self - start_col_int self) + 1)
      else 0)"

definition update ::
  "a1_notation \<Rightarrow> string option \<Rightarrow> col_arg option \<Rightarrow> int option \<Rightarrow> col_arg option \<Rightarrow> int option
     \<Rightarrow> error + bool \<times> a1_notation" where
  "update self sheet_arg start_col_arg start_row_arg end_col_arg end_row_arg =
     (let s = (case sheet_arg of None \<Rightarrow> sheet self | Some v \<Rightarrow> v)
      in case (case start_col_arg of None \<Rightarrow> Inr (start_col self) | Some c \<Rightarrow> col_label c) of
           Inl e \<Rightarrow> Inl e
         | Inr sc \<Rightarrow>
             (case (case end_col_arg of None \<Rightarrow> Inr (end_col self) | Some c \<Rightarrow> col_label c) of
                Inl e \<Rightarrow> Inl e
              | Inr ec \<Rightarrow>
                  let sr = (case start_row_arg of None \<Rightarrow> start_row self | Some v \<Rightarrow> v);
                      er = (case end_row_arg of None \<Rightarrow> end_row self | Some v \<Rightarrow> v)
                  in (case generate_a1 s (ColStr sc) sr (ColStr ec) er of
                        Inl e \<Rightarrow> Inl e
                      | Inr g \<Rightarrow> if g \<noteq> [] then Inr (set_a1 self g) else Inr (False, self))))"

text \<open>\<^verbatim>\<open>contains\<close> with an object as argument, and with a string, which is parsed first.\<close>

definition contains :: "a1_notation \<Rightarrow> a1_notation \<Rightarrow> bool" where
  "contains self a =
     (if valid a \<and> a1 self \<noteq> []
      then if sheet a = sheet self
           then if bounded self
                then if bounded a
                     then start_col_int a \<ge> start_col_int self \<and> end_col_int a \<le> end_col_int self \<and>
                          start_row a \<ge> start_row self \<and> end_row a \<le> end_row self
                     else False
                else if rows_bounded self
                then if rows_bounded a
                     then start_row a \<ge> start_row self \<and> end_row a \<le> end_row self
                     else False
                else if cols_bounded self
                then if cols_bounded a
                     then start_col_int a \<ge> start_col_int self \<and> end_col_int a \<le> end_col_int self
                     else False
                else True
           else False
      else False)"

definition contains_str :: "a1_notation \<Rightarrow> string \<Rightarrow> bool" where
  "contains_str self s = contains self (GoogleSheetsA1Notation s)"

definition append_rows :: "a1_notation \<Rightarrow> int \<Rightarrow> error + bool \<times> a1_notation" where
  "append_rows self rows =
     (if rows_bounded self \<and> rows \<noteq> 0
      then let new_end_row = end_row self + rows
           in if new_end_row > 0
              then update self None None None None (Some new_end_row)
              else Inr (False, self)
      else Inr (True, self))"

definition append_cols :: "a1_notation \<Rightarrow> int \<Rightarrow> error + bool \<times> a1_notation" where
  "append_cols self cols =
     (if cols_bounded self \<and> cols \<noteq> 0
      then let ec = col_to_int (end_col self); new_end_col = ec + cols
           in if new_end_col > 0 \<and> new_end_col \<le> GoogleSheetsMaxColumns
              then update self None None None (Some (ColInt new_end_col)) None
              else Inr (False, self)
      else Inr (True, self))"

definition reduce_rows :: "a1_notation \<Rightarrow> int \<Rightarrow> error + bool \<times> a1_notation" where
  "reduce_rows self rows = append_rows self (- rows)"

definition reduce_cols :: "a1_notation \<Rightarrow> int \<Rightarrow> error + bool \<times> a1_notation" where
  "reduce_cols self cols = append_cols self (- cols)"

definition reshape :: "a1_notation \<Rightarrow> int \<Rightarrow> int \<Rightarrow> error + bool \<times> a1_notation" where
  "reshape self rows cols =
     (if rows \<ge> 0 \<and> cols \<ge> 0
      then update self None (Some (ColInt 1)) (Some 1) (Some (ColInt cols)) (Some rows)
      else Inr (False, self))"

section \<open>Tokens of the grammar\<close>

text \<open>
  The shapes the theorems below speak about: a column token of the pattern (at most three
  capitals), a row token (decimal digits), and what every object that \<^verbatim>\<open>set_a1\<close> accepted
  satisfies (\<open>wf_range\<close>).
\<close>

definition cap3 :: "string \<Rightarrow> bool" where
  "cap3 c = (length c \<le> 3 \<and> list_all is_AZ c)"

definition digits :: "string \<Rightarrow> bool" where
  "digits d = list_all is_digit d"

definition wf_range :: "a1_notation \<Rightarrow> bool" where
  "wf_range r =
     ((start_col r = [] \<longleftrightarrow> start_row r = 0) \<and> 0 \<le> start_row r \<and> 0 \<le> end_row r \<and>
      cap3 (start_col r) \<and> cap3 (end_col r) \<and>
      (start_col r \<noteq> [] \<longrightarrow> sheet r = [] \<or> sheet_tok (sheet r)) \<and>
      (start_col r \<noteq> [] \<and> end_col r \<noteq> [] \<longrightarrow> col_to_int (start_col r) \<le> col_to_int (end_col r)) \<and>
      start_col_int r = col_to_int (start_col r) \<and> end_col_int r = col_to_int (end_col r))"

section \<open>Supporting lemmas\<close>

subsection \<open>What \<^verbatim>\<open>set_a1\<close> and the constructor leave behind\<close>

lemma col_to_int_Nil: "col_to_int [] = 0"
  by (simp add: col_to_int_def upper_def a1_col_re_def)

lemma set_a1_cases:
  obtains (rejected) "\<not> valid_dimensions (extract_a1 s)" "set_a1 self s = (False, self)"
  | (accepted) sh sc sr ec er where
      "extract_a1 s = (sh, sc, sr, ec, er)" "valid_dimensions (sh, sc, sr, ec, er)"
      "set_a1 self s = (True, \<lparr>a1 = s, sheet = sh, start_col = sc, end_col = ec,
         start_col_int = col_to_int sc, end_col_int = col_to_int ec,
         start_row = sr, end_row = er\<rparr>)"
proof (cases "valid_dimensions (extract_a1 s)")
  case False
  then show ?thesis using rejected by (simp add: set_a1_def)
next
  case True
  obtain sh sc sr ec er where e: "extract_a1 s = (sh, sc, sr, ec, er)"
    by (cases "extract_a1 s") auto
  with True show ?thesis using accepted [of sh sc sr ec er] by (simp add: set_a1_def)
qed

lemma new_cases:
  obtains (invalid) "GoogleSheetsA1Notation s = reset"
  | (parsed) sh sc sr ec er where
      "s \<noteq> []" "extract_a1 s = (sh, sc, sr, ec, er)" "valid_dimensions (sh, sc, sr, ec, er)"
      "GoogleSheetsA1Notation s = \<lparr>a1 = s, sheet = sh, start_col = sc, end_col = ec,
         start_col_int = col_to_int sc, end_col_int = col_to_int ec,
         start_row = sr, end_row = er\<rparr>"
proof (cases "s = []")
  case True
  then show ?thesis using invalid by (simp add: GoogleSheetsA1Notation_def)
next
  case False
  show ?thesis
  proof (cases rule: set_a1_cases [of s reset])
    case rejected
    with False show ?thesis using invalid by (simp add: GoogleSheetsA1Notation_def)
  next
    case (accepted sh sc sr ec er)
    with False show ?thesis using parsed [of sh sc sr ec er] by (simp add: GoogleSheetsA1Notation_def)
  qed
qed

subsection \<open>Character classes\<close>

lemma ord_simps:
  "ord (CHR 0x21) = 33" "ord (CHR 0x3A) = 58" "ord (CHR 0x22) = 34" "ord (CHR 0x27) = 39"
  "ord (CHR 0x0A) = 10" "ord (CHR ''A'') = 65" "ord (CHR ''Z'') = 90" "ord (CHR ''-'') = 45"
  by (simp_all add: ord_def)

lemma is_AZ_D:
  assumes "is_AZ c"
  shows "\<not> is_digit c" "\<not> is_space c" "\<not> is_az c" "is_word c" "is_dot c"
    "c \<noteq> CHR 0x21" "c \<noteq> CHR 0x3A" "c \<noteq> CHR 0x22" "c \<noteq> CHR 0x27"
  using assms by (auto simp: is_AZ_def is_digit_def is_space_def is_az_def is_word_def is_dot_def ord_simps)

lemma is_digit_D:
  assumes "is_digit c"
  shows "\<not> is_AZ c" "\<not> is_space c" "\<not> is_az c" "is_word c" "is_dot c"
    "c \<noteq> CHR 0x21" "c \<noteq> CHR 0x3A" "c \<noteq> CHR 0x22" "c \<noteq> CHR 0x27"
  using assms by (auto simp: is_AZ_def is_digit_def is_space_def is_az_def is_word_def is_dot_def ord_simps)

lemma is_space_D:
  assumes "is_space c"
  shows "\<not> is_AZ c" "\<not> is_digit c" "\<not> is_word c"
    "c \<noteq> CHR 0x21" "c \<noteq> CHR 0x3A" "c \<noteq> CHR 0x22" "c \<noteq> CHR 0x27"
  using assms by (auto simp: is_AZ_def is_digit_def is_space_def is_az_def is_word_def ord_simps)

lemma is_word_D:
  assumes "is_word c"
  shows "\<not> is_space c" "is_dot c" "c \<noteq> CHR 0x21" "c \<noteq> CHR 0x3A" "c \<noteq> CHR 0x22" "c \<noteq> CHR 0x27"
  using assms by (auto simp: is_AZ_def is_digit_def is_space_def is_az_def is_word_def is_dot_def ord_simps)

lemma special_chars:
  "\<not> is_AZ (CHR 0x3A)" "\<not> is_digit (CHR 0x3A)" "\<not> is_space (CHR 0x3A)"
  "\<not> is_AZ (CHR 0x21)" "\<not> is_digit (CHR 0x21)" "\<not> is_space (CHR 0x21)" "\<not> is_word (CHR 0x21)"
  "\<not> is_space (CHR 0x22)" "\<not> is_space (CHR 0x27)" "is_dot (CHR 0x22)" "is_dot (CHR 0x27)"
  "\<not> is_word (CHR 0x22)" "\<not> is_word (CHR 0x27)" "\<not> is_word (CHR 0x3A)"
  "\<not> is_dot (CHR 0x0A)" "is_space (CHR 0x0A)"
  by (simp_all add: is_AZ_def is_digit_def is_space_def is_az_def is_word_def is_dot_def ord_simps)

subsection \<open>What the patterns match\<close>

text \<open>
  Two directions for each pattern: a string built from tokens is matched with exactly
  these tokens as groups (\<open>_build\<close>), and a match only ever yields tokens of the right
  shape, from a string of that form (\<open>_shape\<close>, \<open>_groups\<close>).
\<close>

lemma takeWhile_stop:
  assumes "list_all P xs" "ys = [] \<or> \<not> P (hd ys)"
  shows "takeWhile P (xs @ ys) = xs"
  using assms by (cases ys) (auto simp: list_all_iff)

lemma takeWhile_take_stop:
  assumes "length xs \<le> n" "list_all P xs" "ys = [] \<or> \<not> P (hd ys)"
  shows "takeWhile P (take n (xs @ ys)) = xs"
proof -
  have "take n (xs @ ys) = xs @ take (n - length xs) ys"
    using assms(1) by simp
  moreover have "take (n - length xs) ys = [] \<or> \<not> P (hd (take (n - length xs) ys))"
    using assms(3) by (cases ys; cases "n - length xs") auto
  ultimately show ?thesis
    using takeWhile_stop [OF assms(2)] by simp
qed

lemma bounds_group_build:
  assumes "cap3 sc" "digits sr" "cap3 ec" "digits er"
    and "w = [] \<or> (\<not> is_AZ (hd w) \<and> \<not> is_digit (hd w))"
  shows "bounds_group (sc @ sr @ [CHR 0x3A] @ ec @ er @ w) = Some (sc, sr, ec, er, w)"
proof -
  let ?q1 = "sr @ [CHR 0x3A] @ ec @ er @ w"
  let ?q4 = "er @ w"
  have a: "takeWhile is_AZ (take 3 (sc @ ?q1)) = sc"
  proof (rule takeWhile_take_stop)
    show "?q1 = [] \<or> \<not> is_AZ (hd ?q1)"
      using assms(2) by (cases sr) (auto simp: digits_def special_chars is_digit_D)
  qed (use assms(1) in \<open>auto simp: cap3_def\<close>)
  have b: "takeWhile is_digit ?q1 = sr"
    by (rule takeWhile_stop) (use assms(2) in \<open>auto simp: digits_def special_chars\<close>)
  have c: "takeWhile is_AZ (take 3 (ec @ ?q4)) = ec"
  proof (rule takeWhile_take_stop)
    show "?q4 = [] \<or> \<not> is_AZ (hd ?q4)"
      using assms(4,5) by (cases er) (auto simp: digits_def is_digit_D)
  qed (use assms(3) in \<open>auto simp: cap3_def\<close>)
  have d: "takeWhile is_digit ?q4 = er"
    by (rule takeWhile_stop) (use assms(4,5) in \<open>auto simp: digits_def\<close>)
  show ?thesis
    unfolding bounds_group_def Let_def a
    using b c d by simp
qed

lemma bounds_re_build:
  assumes "cap3 sc" "digits sr" "cap3 ec" "digits er" "list_all is_space w"
  shows "bounds_re (sc @ sr @ [CHR 0x3A] @ ec @ er @ w) = Some (sc, sr, ec, er)"
proof -
  have "w = [] \<or> (\<not> is_AZ (hd w) \<and> \<not> is_digit (hd w))"
    using assms(5) by (cases w) (auto simp: is_space_D)
  from bounds_group_build [OF assms(1-4) this] assms(5) show ?thesis
    by (simp add: bounds_re_def)
qed

lemma bounds_re_space:
  assumes "list_all is_space w"
  shows "bounds_re w = Some ([], [], [], [])"
proof -
  have "takeWhile is_AZ (take 3 w) = []"
    using assms by (cases w) (auto simp: is_space_D)
  moreover have "takeWhile is_digit w = []"
    using assms by (cases w) (auto simp: is_space_D)
  moreover have "w = [] \<or> hd w \<noteq> CHR 0x3A"
    using assms by (cases w) (auto simp: is_space_D)
  ultimately have "bounds_group w = None"
    by (cases w) (auto simp: bounds_group_def)
  with assms show ?thesis by (simp add: bounds_re_def)
qed

lemma sheet_tok_hd:
  assumes "sheet_tok t"
  shows "t \<noteq> []" "\<not> is_space (hd t)"
  using assms
  by (cases t; auto simp: sheet_tok_def quoted_def special_chars is_word_D)+

lemma dropWhile_space_build:
  assumes "list_all is_space ws" "r \<noteq> []" "\<not> is_space (hd r)"
  shows "dropWhile is_space (ws @ r) = r"
  using assms by (cases r) (auto simp: list_all_iff dropWhile_append2)

lemma takeWhile_take_prefix:
  "takeWhile P (take n q) @ drop (length (takeWhile P (take n q))) q = q"
proof -
  let ?k = "length (takeWhile P (take n q))"
  have "?k \<le> n"
    by (rule order_trans [OF length_takeWhile_le]) simp
  have "takeWhile P (take n q) = take ?k (take n q)"
    by (rule takeWhile_eq_take)
  also have "\<dots> = take ?k q"
    using \<open>?k \<le> n\<close> by (simp add: min_def)
  finally have "takeWhile P (take n q) = take ?k q" .
  then have "takeWhile P (take n q) @ drop ?k q = take ?k q @ drop ?k q"
    by simp
  then show ?thesis by simp
qed

lemma cap3_takeWhile: "cap3 (takeWhile is_AZ (take 3 q))"
proof -
  have "length (takeWhile is_AZ (take 3 q)) \<le> length (take 3 q)"
    by (rule length_takeWhile_le)
  moreover have "list_all is_AZ (takeWhile is_AZ (take 3 q))"
    by (auto simp: list_all_iff dest: set_takeWhileD)
  ultimately show ?thesis by (simp add: cap3_def)
qed

lemma digits_takeWhile: "digits (takeWhile is_digit q)"
  by (auto simp: digits_def list_all_iff dest: set_takeWhileD)

lemma bounds_group_shape:
  assumes "bounds_group q = Some (sc, sr, ec, er, q5)"
  shows "q = sc @ sr @ [CHR 0x3A] @ ec @ er @ q5" "cap3 sc" "digits sr" "cap3 ec" "digits er"
proof -
  define sc0 where "sc0 = takeWhile is_AZ (take 3 q)"
  define q1 where "q1 = drop (length sc0) q"
  define sr0 where "sr0 = takeWhile is_digit q1"
  define q2 where "q2 = drop (length sr0) q1"
  define tl_grp where "tl_grp = (\<lambda>q3.
      let ec = takeWhile is_AZ (take 3 q3); q4 = drop (length ec) q3;
          er = takeWhile is_digit q4; q5 = drop (length er) q4
      in Some (sc0, sr0, ec, er, q5))"
  have eq: "bounds_group q =
      (case q2 of [] \<Rightarrow> None | c # q3 \<Rightarrow> if c = CHR 0x3A then tl_grp q3 else None)"
    unfolding bounds_group_def tl_grp_def q2_def sr0_def q1_def sc0_def Let_def ..
  from assms obtain q3 where q2: "q2 = CHR 0x3A # q3" and t: "tl_grp q3 = Some (sc, sr, ec, er, q5)"
    unfolding eq by (cases q2) (simp_all split: if_splits)
  define ec0 where "ec0 = takeWhile is_AZ (take 3 q3)"
  define q4 where "q4 = drop (length ec0) q3"
  define er0 where "er0 = takeWhile is_digit q4"
  have "tl_grp q3 = Some (sc0, sr0, ec0, er0, drop (length er0) q4)"
    unfolding tl_grp_def er0_def q4_def ec0_def Let_def ..
  with t have "Some (sc, sr, ec, er, q5) = Some (sc0, sr0, ec0, er0, drop (length er0) q4)"
    by (rule trans [OF sym])
  then have g: "sc = sc0" "sr = sr0" "ec = ec0" "er = er0" "q5 = drop (length er0) q4"
    by blast+
  show "cap3 sc" unfolding g sc0_def by (rule cap3_takeWhile)
  show "cap3 ec" unfolding g ec0_def by (rule cap3_takeWhile)
  show "digits sr" unfolding g sr0_def by (rule digits_takeWhile)
  show "digits er" unfolding g er0_def by (rule digits_takeWhile)
  have a: "q = sc0 @ q1"
    unfolding q1_def sc0_def by (rule takeWhile_take_prefix [symmetric])
  have b: "q1 = sr0 @ q2"
    unfolding q2_def sr0_def by (simp add: dropWhile_eq_drop [symmetric])
  have c: "q3 = ec0 @ q4"
    unfolding q4_def ec0_def by (rule takeWhile_take_prefix [symmetric])
  have d: "q4 = er0 @ q5"
    unfolding g er0_def by (simp add: dropWhile_eq_drop [symmetric])
  have "q = sc0 @ sr0 @ [CHR 0x3A] @ ec0 @ er0 @ q5"
    by (subst a, subst b, subst q2, subst c, subst d) simp
  then show "q = sc @ sr @ [CHR 0x3A] @ ec @ er @ q5"
    unfolding g(1-4) .
qed

lemma bounds_re_cases:
  assumes "bounds_re q = Some (sc, sr, ec, er)"
  shows "(\<exists>q5. bounds_group q = Some (sc, sr, ec, er, q5) \<and> list_all is_space q5) \<or>
         (list_all is_space q \<and> sc = [] \<and> sr = [] \<and> ec = [] \<and> er = [])"
proof (cases "bounds_group q")
  case None
  with assms show ?thesis by (simp add: bounds_re_def split: if_splits)
next
  case (Some g)
  obtain a b c d q5 where g: "g = (a, b, c, d, q5)" by (cases g) auto
  show ?thesis
  proof (cases "list_all is_space q5")
    case True
    with assms Some g show ?thesis by (simp add: bounds_re_def)
  next
    case False
    with assms Some g show ?thesis by (simp add: bounds_re_def split: if_splits)
  qed
qed

lemma bounds_re_groups:
  assumes "bounds_re q = Some (sc, sr, ec, er)"
  shows "cap3 sc" "digits sr" "cap3 ec" "digits er"
proof -
  from bounds_re_cases [OF assms] have "cap3 sc \<and> digits sr \<and> cap3 ec \<and> digits er"
  proof (elim disjE exE conjE)
    fix q5 assume "bounds_group q = Some (sc, sr, ec, er, q5)"
    from bounds_group_shape(2-5) [OF this] show ?thesis by simp
  next
    assume "sc = []" "sr = []" "ec = []" "er = []"
    then show ?thesis by (simp add: cap3_def digits_def)
  qed
  then show "cap3 sc" "digits sr" "cap3 ec" "digits er" by simp_all
qed

lemma bounds_re_no_bang:
  assumes "bounds_re q = Some (sc, sr, ec, er)"
  shows "CHR 0x21 \<notin> set q"
proof -
  have n: "\<not> is_AZ (CHR 0x21)" "\<not> is_digit (CHR 0x21)" "\<not> is_space (CHR 0x21)"
    by (simp_all add: special_chars)
  from bounds_re_cases [OF assms] show ?thesis
  proof (elim disjE exE conjE)
    fix q5 assume g: "bounds_group q = Some (sc, sr, ec, er, q5)" and w: "list_all is_space q5"
    note s = bounds_group_shape [OF g]
    have "set q = set sc \<union> set sr \<union> {CHR 0x3A} \<union> set ec \<union> set er \<union> set q5"
      by (subst s(1)) auto
    moreover have "CHR 0x21 \<notin> set sc" "CHR 0x21 \<notin> set ec"
      using s(2,4) n by (auto simp: cap3_def list_all_iff)
    moreover have "CHR 0x21 \<notin> set sr" "CHR 0x21 \<notin> set er"
      using s(3,5) n by (auto simp: digits_def list_all_iff)
    moreover have "CHR 0x21 \<notin> set q5"
      using w n by (auto simp: list_all_iff)
    ultimately show ?thesis by simp
  next
    assume "list_all is_space q"
    with n show ?thesis by (auto simp: list_all_iff)
  qed
qed

lemma sheet_group_split:
  assumes "CHR 0x21 \<notin> set q"
  shows "rev (takeWhile (\<lambda>c. c \<noteq> CHR 0x21) (rev (t @ [CHR 0x21] @ q))) = q"
    "take (length (t @ [CHR 0x21] @ q) - length q - 1) (t @ [CHR 0x21] @ q) = t"
proof -
  have "takeWhile (\<lambda>c. c \<noteq> CHR 0x21) (rev q @ CHR 0x21 # rev t) = rev q"
    using assms by (intro takeWhile_stop) (auto simp: list_all_iff)
  then show "rev (takeWhile (\<lambda>c. c \<noteq> CHR 0x21) (rev (t @ [CHR 0x21] @ q))) = q"
    by simp
  show "take (length (t @ [CHR 0x21] @ q) - length q - 1) (t @ [CHR 0x21] @ q) = t"
    by simp
qed

lemma sheet_group_build:
  assumes "sheet_tok t" "bounds_re q = Some (sc, sr, ec, er)"
  shows "sheet_group (t @ [CHR 0x21] @ q) = Some (t, sc, sr, ec, er)"
proof -
  have nb: "CHR 0x21 \<notin> set q" using assms(2) by (rule bounds_re_no_bang)
  show ?thesis
    unfolding sheet_group_def Let_def sheet_group_split [OF nb]
    using assms by simp
qed

lemma sheet_group_shape:
  assumes "sheet_group r = Some (t, sc, sr, ec, er)"
  shows "sheet_tok t" "\<exists>q. r = t @ [CHR 0x21] @ q \<and> bounds_re q = Some (sc, sr, ec, er)"
proof -
  define q where "q = rev (takeWhile (\<lambda>c. c \<noteq> CHR 0x21) (rev r))"
  from assms have b: "CHR 0x21 \<in> set r" and t: "t = take (length r - length q - 1) r"
    and st: "sheet_tok t" and br: "bounds_re q = Some (sc, sr, ec, er)"
    by (auto simp: sheet_group_def Let_def q_def split: if_splits option.splits)
  show "sheet_tok t" by fact
  have "rev r = takeWhile (\<lambda>c. c \<noteq> CHR 0x21) (rev r) @ dropWhile (\<lambda>c. c \<noteq> CHR 0x21) (rev r)"
    by simp
  moreover have "\<exists>d. dropWhile (\<lambda>c. c \<noteq> CHR 0x21) (rev r) = CHR 0x21 # d"
  proof (cases "dropWhile (\<lambda>c. c \<noteq> CHR 0x21) (rev r)")
    case Nil
    with b show ?thesis by (auto simp: dropWhile_eq_Nil_conv)
  next
    case (Cons x d)
    then have "dropWhile (\<lambda>c. c \<noteq> CHR 0x21) (rev r) \<noteq> []" by simp
    from hd_dropWhile [OF this] Cons show ?thesis by simp
  qed
  then obtain d where d: "dropWhile (\<lambda>c. c \<noteq> CHR 0x21) (rev r) = CHR 0x21 # d" ..
  ultimately have "rev r = rev q @ CHR 0x21 # d"
    by (simp add: q_def)
  then have "rev (rev r) = rev (rev q @ CHR 0x21 # d)" by simp
  then have r: "r = rev d @ [CHR 0x21] @ q" by simp
  then have "t = rev d" using t by simp
  with r br show "\<exists>q. r = t @ [CHR 0x21] @ q \<and> bounds_re q = Some (sc, sr, ec, er)"
    by blast
qed

lemma sheet_group_no_bang:
  assumes "CHR 0x21 \<notin> set r"
  shows "sheet_group r = None"
  using assms by (simp add: sheet_group_def)

lemma a1_re_build_sheet:
  assumes "list_all is_space ws" "sheet_tok t"
    and "cap3 sc" "digits sr" "cap3 ec" "digits er" "list_all is_space w"
  shows "a1_re (ws @ t @ [CHR 0x21] @ sc @ sr @ [CHR 0x3A] @ ec @ er @ w) = Some (t, sc, sr, ec, er)"
proof -
  let ?q = "sc @ sr @ [CHR 0x3A] @ ec @ er @ w"
  have "dropWhile is_space (ws @ (t @ [CHR 0x21] @ ?q)) = t @ [CHR 0x21] @ ?q"
    using assms(1) sheet_tok_hd [OF assms(2)]
    by (intro dropWhile_space_build) (simp_all add: hd_append)
  moreover have "sheet_group (t @ [CHR 0x21] @ ?q) = Some (t, sc, sr, ec, er)"
    by (rule sheet_group_build [OF assms(2) bounds_re_build [OF assms(3-7)]])
  ultimately show ?thesis
    by (simp add: a1_re_def)
qed

lemma a1_re_build_title_only:
  assumes "list_all is_space ws" "sheet_tok t" "list_all is_space w"
  shows "a1_re (ws @ t @ [CHR 0x21] @ w) = Some (t, [], [], [], [])"
proof -
  have "dropWhile is_space (ws @ (t @ [CHR 0x21] @ w)) = t @ [CHR 0x21] @ w"
    using assms(1) sheet_tok_hd [OF assms(2)]
    by (intro dropWhile_space_build) (simp_all add: hd_append)
  moreover have "sheet_group (t @ [CHR 0x21] @ w) = Some (t, [], [], [], [])"
    by (rule sheet_group_build [OF assms(2) bounds_re_space [OF assms(3)]])
  ultimately show ?thesis
    by (simp add: a1_re_def)
qed

lemma a1_re_build_bare:
  assumes "list_all is_space ws"
    and "cap3 sc" "digits sr" "cap3 ec" "digits er" "list_all is_space w"
  shows "a1_re (ws @ sc @ sr @ [CHR 0x3A] @ ec @ er @ w) = Some ([], sc, sr, ec, er)"
proof -
  let ?q = "sc @ sr @ [CHR 0x3A] @ ec @ er @ w"
  have hd: "\<not> is_space (hd ?q)"
    using assms(2,3)
    by (cases sc; cases sr) (auto simp: cap3_def digits_def special_chars is_AZ_D is_digit_D)
  have "dropWhile is_space (ws @ ?q) = ?q"
    using assms(1) hd by (intro dropWhile_space_build) simp_all
  moreover have b: "bounds_re ?q = Some (sc, sr, ec, er)"
    by (rule bounds_re_build [OF assms(2-6)])
  moreover have "sheet_group ?q = None"
    by (rule sheet_group_no_bang [OF bounds_re_no_bang [OF b]])
  ultimately show ?thesis
    by (simp add: a1_re_def)
qed

lemma a1_re_groups:
  assumes "a1_re s = Some (t, sc, sr, ec, er)"
  shows "t = [] \<or> sheet_tok t" "cap3 sc" "digits sr" "cap3 ec" "digits er"
proof -
  have "(t = [] \<or> sheet_tok t) \<and> cap3 sc \<and> digits sr \<and> cap3 ec \<and> digits er"
  proof (cases "sheet_group (dropWhile is_space s)")
    case None
    with assms have "bounds_re (dropWhile is_space s) = Some (sc, sr, ec, er)" "t = []"
      by (auto simp: a1_re_def split: option.splits)
    from bounds_re_groups [OF this(1)] this(2) show ?thesis by simp
  next
    case (Some g)
    with assms have g: "sheet_group (dropWhile is_space s) = Some (t, sc, sr, ec, er)"
      by (simp add: a1_re_def)
    from sheet_group_shape [OF g] obtain q where "sheet_tok t" "bounds_re q = Some (sc, sr, ec, er)"
      by blast
    from bounds_re_groups [OF this(2)] this(1) show ?thesis by simp
  qed
  then show "t = [] \<or> sheet_tok t" "cap3 sc" "digits sr" "cap3 ec" "digits er"
    by simp_all
qed

subsection \<open>Column labels and decimal numbers\<close>

lemma upper_cap: "list_all is_AZ c \<Longrightarrow> upper c = c"
  by (induction c) (auto simp: upper_def is_AZ_D)

lemma a1_col_re_cap3:
  assumes "cap3 c" "c \<noteq> []"
  shows "a1_col_re c"
proof -
  have "takeWhile is_AZ (take 3 (c @ [])) = c"
    using assms(1) by (intro takeWhile_take_stop) (simp_all add: cap3_def)
  with assms(2) show ?thesis by (simp add: a1_col_re_def)
qed

lemma foldl_col_ge:
  assumes "\<forall>(i, v) \<in> set xs. 1 \<le> f i v"
  shows "a + int (length xs) \<le> foldl (\<lambda>num (i, v). num + f i v) a xs"
  using assms
proof (induction xs arbitrary: a)
  case Nil
  then show ?case by simp
next
  case (Cons x xs)
  obtain i v where x: "x = (i, v)" by (cases x)
  from Cons.prems x have "1 \<le> f i v" by simp
  moreover from Cons.prems have "\<forall>(i, v) \<in> set xs. 1 \<le> f i v" by simp
  from Cons.IH [OF this, of "a + f i v"]
  have "a + f i v + int (length xs) \<le> foldl (\<lambda>num (i, v). num + f i v) (a + f i v) xs" .
  ultimately show ?case using x by simp
qed

lemma col_to_int_pos:
  assumes "cap3 c" "c \<noteq> []"
  shows "1 \<le> col_to_int c"
proof -
  let ?f = "\<lambda>i v. (ord v - 64) * (26::int) ^ i"
  have "\<forall>(i, v) \<in> set (enumerate 0 (rev c)). 1 \<le> ?f i v"
  proof safe
    fix i v assume "(i, v) \<in> set (enumerate 0 (rev c))"
    then have "snd (i, v) \<in> snd ` set (enumerate 0 (rev c))" by (rule imageI)
    moreover have "snd ` set (enumerate 0 (rev c)) = set (rev c)"
      by (simp only: set_map [symmetric] map_snd_enumerate)
    ultimately have "v \<in> set c" by simp
    with assms(1) have "1 \<le> ord v - 64" by (auto simp: cap3_def list_all_iff is_AZ_def)
    moreover have "(1::int) \<le> 26 ^ i" by simp
    ultimately show "1 \<le> ?f i v" by (metis mult_mono' mult_1 zero_le_one)
  qed
  from foldl_col_ge [of "enumerate 0 (rev c)" ?f 0, OF this]
  have "int (length c) \<le> foldl (\<lambda>num (i, v). num + ?f i v) 0 (enumerate 0 (rev c))" by simp
  moreover have "1 \<le> int (length c)" using assms(2) by (cases c) simp_all
  moreover have "col_to_int c = foldl (\<lambda>num (i, v). num + ?f i v) 0 (enumerate 0 (rev c))"
    using assms upper_cap [of c] a1_col_re_cap3 [OF assms]
    by (simp add: col_to_int_def cap3_def)
  ultimately show ?thesis by linarith
qed

lemma ord_char_of_nat:
  assumes "n < 256"
  shows "ord (char_of (n::nat)) = int n"
proof -
  have "(of_char (char_of n) :: nat) = n" using assms by simp
  moreover have "ord (char_of n) = int (of_char (char_of n))"
    unfolding ord_def by (rule of_nat_of_char [symmetric])
  ultimately show ?thesis by (simp only:)
qed

lemma ord_char_of_int:
  assumes "0 \<le> n" "n < 256"
  shows "ord (char_of (n::int)) = n"
  using assms by (simp add: ord_def)

lemma str_nat_digits: "digits (str_nat n)"
proof (induction n rule: str_nat.induct)
  case (1 n)
  have d: "is_digit (char_of (48 + k))" if "k < 10" for k :: nat
    using that by (simp add: is_digit_def ord_char_of_nat)
  show ?case
  proof (cases "n < 10")
    case True
    then show ?thesis using d [of n] by (subst str_nat.simps) (simp add: digits_def)
  next
    case False
    with 1 have "digits (str_nat (n div 10))" by simp
    moreover have "is_digit (char_of (48 + n mod 10))" by (rule d) simp
    ultimately show ?thesis
      using False by (subst str_nat.simps) (simp add: digits_def)
  qed
qed

lemma str_nat_ne: "str_nat n \<noteq> []"
  by (subst str_nat.simps) simp

lemma int_of_str_snoc: "int_of_str (ds @ [c]) = 10 * int_of_str ds + (ord c - 48)"
  by (simp add: int_of_str_def)

lemma int_of_str_str_nat: "int_of_str (str_nat n) = int n"
proof (induction n rule: str_nat.induct)
  case (1 n)
  show ?case
  proof (cases "n < 10")
    case True
    then have "str_nat n = [char_of (48 + n)]" by (subst str_nat.simps) simp
    moreover have "ord (char_of (48 + n)) = int (48 + n)"
      using True by (intro ord_char_of_nat) simp
    ultimately show ?thesis by (simp add: int_of_str_def)
  next
    case False
    with 1 have ih: "int_of_str (str_nat (n div 10)) = int (n div 10)" by simp
    have s: "str_nat n = str_nat (n div 10) @ [char_of (48 + n mod 10)]"
      using False by (subst str_nat.simps) simp
    have "ord (char_of (48 + n mod 10)) = int (48 + n mod 10)"
      by (intro ord_char_of_nat) simp
    then have "int_of_str (str_nat n) = 10 * int (n div 10) + int (n mod 10)"
      unfolding s int_of_str_snoc ih by simp
    also have "\<dots> = int n" by (simp add: zdiv_int zmod_int)
    finally show ?thesis .
  qed
qed

lemma str_int_pos:
  assumes "0 < i"
  shows "digits (str_int i)" "str_int i \<noteq> []" "int_of_str (str_int i) = i"
  using assms by (simp_all add: str_int_def str_nat_digits str_nat_ne int_of_str_str_nat)

lemma int_of_str_nonneg:
  assumes "digits ds"
  shows "0 \<le> int_of_str ds"
  using assms
proof (induction ds rule: rev_induct)
  case Nil
  then show ?case by (simp add: int_of_str_def)
next
  case (snoc c ds)
  then have "0 \<le> int_of_str ds" "48 \<le> ord c"
    by (simp_all add: digits_def is_digit_def)
  then show ?case unfolding int_of_str_snoc by simp
qed

lemma int_to_col_step_nonneg:
  assumes "0 \<le> i"
  shows "\<exists>col' i'. int_to_col_step (col, i) p = Inr (col', i') \<and> 0 \<le> i' \<and>
           (col' = col \<or> (\<exists>c. is_AZ c \<and> col' = col @ [c]))"
proof -
  define d where "d = i div 26 ^ p"
  define r where "r = i mod 26 ^ p"
  have d0: "0 \<le> d" unfolding d_def using assms by (simp add: pos_imp_zdiv_nonneg_iff)
  have r0: "0 \<le> r" unfolding r_def by simp
  have step: "int_to_col_step (col, i) p =
      (if d \<noteq> 0
       then if d > 26 then Inr (col @ ''Z'', r + (d - 26) * 26 ^ p)
            else (case chr (d + 64) of Inl e \<Rightarrow> Inl e | Inr ch \<Rightarrow> Inr (col @ [ch], r))
       else Inr (col, r))"
    unfolding int_to_col_step_def d_def r_def Let_def by simp
  consider "d = 0" | "26 < d" | "1 \<le> d" "d \<le> 26" using d0 by linarith
  then show ?thesis
  proof cases
    case 1
    then show ?thesis using r0 by (simp add: step)
  next
    case 2
    then have "0 \<le> (d - 26) * 26 ^ p" by simp
    with r0 have "0 \<le> r + (d - 26) * 26 ^ p" by linarith
    moreover have "is_AZ (CHR ''Z'')" by (simp add: is_AZ_def ord_simps)
    ultimately show ?thesis using 2 by (simp add: step)
  next
    case 3
    then have "ord (char_of (d + 64)) = d + 64" by (intro ord_char_of_int) simp_all
    with 3 have "is_AZ (char_of (d + 64))" by (simp add: is_AZ_def)
    with 3 r0 show ?thesis by (simp add: step chr_def)
  qed
qed

lemma int_to_col_nonneg:
  assumes "0 \<le> i"
  shows "\<exists>c. int_to_col i = Inr c \<and> cap3 c"
proof (cases "i \<le> GoogleSheetsMaxColumns")
  case False
  then show ?thesis by (simp add: int_to_col_def cap3_def)
next
  case True
  from int_to_col_step_nonneg [OF assms, of "[]" 2] obtain c2 i2 where
    s2: "int_to_col_step ([], i) 2 = Inr (c2, i2)" "0 \<le> i2" "length c2 \<le> 1" "list_all is_AZ c2"
    by auto
  from int_to_col_step_nonneg [OF s2(2), of c2 1] s2(3,4) obtain c1 i1 where
    s1: "int_to_col_step (c2, i2) 1 = Inr (c1, i1)" "0 \<le> i1" "length c1 \<le> 2" "list_all is_AZ c1"
    by auto
  from int_to_col_step_nonneg [OF s1(2), of c1 0] s1(3,4) obtain c0 i0 where
    s0: "int_to_col_step (c1, i1) 0 = Inr (c0, i0)" "length c0 \<le> 3" "list_all is_AZ c0"
    by auto
  from True s2(1) s1(1) s0 show ?thesis
    by (simp add: int_to_col_def cap3_def)
qed

subsection \<open>Titles and generated strings\<close>

lemma sheet_tok_a1_sheet_re:
  assumes "sheet_tok t"
  shows "a1_sheet_re t"
proof -
  from sheet_tok_hd [OF assms] obtain c cs where t: "t = c # cs" and c: "\<not> is_space c"
    by (cases t) auto
  have "is_word c \<or> ((c = CHR 0x22 \<or> c = CHR 0x27) \<and> c \<in> set (tl (takeWhile is_dot cs)))"
  proof (cases "list_all is_word t")
    case True
    then show ?thesis using t by simp
  next
    case False
    with assms have "quoted (CHR 0x22) t \<or> quoted (CHR 0x27) t" by (auto simp: sheet_tok_def)
    then have q: "c = CHR 0x22 \<or> c = CHR 0x27" and len: "2 \<le> length cs" and l: "last cs = c"
      and d: "list_all is_dot (butlast cs)"
      using t by (auto simp: quoted_def split: if_splits)
    from len have ne: "cs \<noteq> []" by auto
    from q have "is_dot c" by (auto simp: special_chars)
    with d l ne have "list_all is_dot (butlast cs @ [last cs])" by simp
    with ne have "list_all is_dot cs" by simp
    then have tw: "takeWhile is_dot cs = cs" by (simp add: list_all_iff)
    from len obtain x ys where xs: "cs = x # ys" "ys \<noteq> []"
      by (cases cs; cases "tl cs") auto
    from xs l have "last ys = c" by simp
    with xs have "c \<in> set (tl cs)" using last_in_set [OF xs(2)] by simp
    with q show ?thesis unfolding tw by blast
  qed
  with t c show ?thesis by (simp add: a1_sheet_re_def)
qed

lemma sheet_tok_quote_title:
  assumes "sheet_tok t"
  shows "sheet_tok (quote_title t)"
proof (cases "\<not> (hd t = CHR 0x27 \<or> hd t = CHR 0x22) \<and> \<not> bare_title_re t")
  case False
  with assms show ?thesis by (auto simp: quote_title_def)
next
  case True
  with assms have w: "t \<noteq> []" "list_all is_word t"
    by (auto simp: sheet_tok_def quoted_def)
  then have "list_all is_dot t" by (auto simp: list_all_iff is_word_D)
  with w have "quoted (CHR 0x22) ([CHR 0x22] @ t @ [CHR 0x22])"
    by (cases t) (auto simp: quoted_def butlast_append)
  with True show ?thesis by (simp add: quote_title_def sheet_tok_def)
qed

lemma generate_a1_range:
  assumes "a1_sheet_re t" "a1_col_re sc" "sc \<noteq> []" "0 < sr"
  shows "generate_a1 t (ColStr sc) sr (ColStr ec) er =
           Inr (quote_title t @ [CHR 0x21] @ sc @ str_int sr @
                (if ec \<noteq> [] \<and> a1_col_re ec
                 then [CHR 0x3A] @ ec @ (if 0 < er then str_int er else []) else []))"
proof -
  from assms(1) have "t \<noteq> []" by (auto simp: a1_sheet_re_def)
  then have "quote_title t \<noteq> []" by (simp add: quote_title_def)
  with assms show ?thesis
    by (simp add: generate_a1_def truthy_def col_label_def Let_def)
qed

subsection \<open>Extracted dimensions\<close>

lemma int_of_str_Nil: "int_of_str [] = 0"
  by (simp add: int_of_str_def)

lemma extract_a1_match:
  assumes "a1_re s = Some (t, sc, sr, ec, er)"
  shows "extract_a1 s =
           (if int_of_str sr \<noteq> 0 \<and> sc = [] then (t, ''A'', int_of_str sr, ec, int_of_str er)
            else if sc \<noteq> [] \<and> int_of_str sr = 0 then (t, sc, 1, ec, int_of_str er)
            else (t, sc, int_of_str sr, ec, int_of_str er))"
proof -
  have "(if sr \<noteq> [] then int_of_str sr else 0) = int_of_str sr"
       "(if er \<noteq> [] then int_of_str er else 0) = int_of_str er"
    by (simp_all add: int_of_str_Nil)
  with assms show ?thesis
    by (simp add: extract_a1_def Let_def)
qed

lemma extract_a1_no_match:
  assumes "a1_re s = None"
  shows "extract_a1 s = (case sheet_only_re s of Some g0 \<Rightarrow> (g0, [], 0, [], 0) | None \<Rightarrow> ([], [], 0, [], 0))"
  using assms by (simp add: extract_a1_def)

lemma cap3_A: "cap3 ''A''" "''A'' \<noteq> []"
  by (simp_all add: cap3_def is_AZ_def ord_simps)

lemma extract_a1_wf:
  assumes "extract_a1 s = (t, sc, sr, ec, er)"
  shows "sc = [] \<longleftrightarrow> sr = 0" "0 \<le> sr" "0 \<le> er" "cap3 sc" "cap3 ec"
    "sc \<noteq> [] \<longrightarrow> t = [] \<or> sheet_tok t"
proof -
  have "((sc = [] \<longleftrightarrow> sr = 0) \<and> 0 \<le> sr \<and> 0 \<le> er) \<and> (cap3 sc \<and> cap3 ec) \<and>
        (sc \<noteq> [] \<longrightarrow> t = [] \<or> sheet_tok t)"
  proof (cases "a1_re s")
    case None
    from assms show ?thesis
      unfolding extract_a1_no_match [OF None]
      by (auto simp: cap3_def split: option.splits)
  next
    case (Some g)
    obtain t' sc' sr' ec' er' where g: "g = (t', sc', sr', ec', er')"
      by (cases g) auto
    note m = Some [unfolded g]
    note gr = a1_re_groups [OF m]
    have n: "0 \<le> int_of_str sr'" "0 \<le> int_of_str er'"
      using gr by (simp_all add: int_of_str_nonneg)
    from assms have e: "(t, sc, sr, ec, er) =
           (if int_of_str sr' \<noteq> 0 \<and> sc' = [] then (t', ''A'', int_of_str sr', ec', int_of_str er')
            else if sc' \<noteq> [] \<and> int_of_str sr' = 0 then (t', sc', 1, ec', int_of_str er')
            else (t', sc', int_of_str sr', ec', int_of_str er'))"
      unfolding extract_a1_match [OF m] by simp
    consider (a) "int_of_str sr' \<noteq> 0" "sc' = []" | (b) "sc' \<noteq> []" "int_of_str sr' = 0"
      | (c) "\<not> (int_of_str sr' \<noteq> 0 \<and> sc' = [])" "\<not> (sc' \<noteq> [] \<and> int_of_str sr' = 0)"
      by blast
    then show ?thesis
    proof cases
      case a
      with e have "t = t'" "sc = ''A''" "sr = int_of_str sr'" "ec = ec'" "er = int_of_str er'"
        by simp_all
      with a gr n show ?thesis by (simp add: cap3_A)
    next
      case b
      with e have "t = t'" "sc = sc'" "sr = 1" "ec = ec'" "er = int_of_str er'"
        by simp_all
      with b gr n show ?thesis by simp
    next
      case c
      with e have "t = t'" "sc = sc'" "sr = int_of_str sr'" "ec = ec'" "er = int_of_str er'"
        by simp_all
      with c gr n show ?thesis by auto
    qed
  qed
  then show "sc = [] \<longleftrightarrow> sr = 0" "0 \<le> sr" "0 \<le> er" "cap3 sc" "cap3 ec"
    "sc \<noteq> [] \<longrightarrow> t = [] \<or> sheet_tok t"
    by blast+
qed

lemma set_a1_wf:
  assumes "set_a1 self s = (True, r)"
  shows "wf_range r" "a1 r = s"
proof -
  have "wf_range r \<and> a1 r = s"
  proof (cases rule: set_a1_cases [of s self])
    case rejected
    with assms show ?thesis by simp
  next
    case (accepted sh sc sr ec er)
    with assms have r: "r = \<lparr>a1 = s, sheet = sh, start_col = sc, end_col = ec,
         start_col_int = col_to_int sc, end_col_int = col_to_int ec,
         start_row = sr, end_row = er\<rparr>" by simp
    note w = extract_a1_wf [OF accepted(1)]
    have "sc \<noteq> [] \<and> ec \<noteq> [] \<longrightarrow> col_to_int sc \<le> col_to_int ec"
      using accepted(2) by (auto simp: valid_dimensions_def)
    with w show ?thesis unfolding r wf_range_def by simp
  qed
  then show "wf_range r" "a1 r = s" by simp_all
qed

lemma new_wf:
  assumes "valid (GoogleSheetsA1Notation s)"
  shows "wf_range (GoogleSheetsA1Notation s)" "set_a1 self s = (True, GoogleSheetsA1Notation s)"
proof -
  have "wf_range (GoogleSheetsA1Notation s) \<and> set_a1 self s = (True, GoogleSheetsA1Notation s)"
  proof (cases s rule: new_cases)
    case invalid
    with assms show ?thesis by (simp add: valid_def reset_def)
  next
    case (parsed sh sc sr ec er)
    then have "set_a1 self s = (True, GoogleSheetsA1Notation s)"
      by (simp add: set_a1_def)
    with set_a1_wf(1) [OF this] show ?thesis by simp
  qed
  then show "wf_range (GoogleSheetsA1Notation s)" "set_a1 self s = (True, GoogleSheetsA1Notation s)"
    by simp_all
qed

subsection \<open>Parsing a generated string\<close>

lemma extract_a1_built:
  assumes "sheet_tok t" "cap3 sc" "sc \<noteq> []" "0 < sr" "cap3 ec" "0 \<le> er"
    and "g = t @ [CHR 0x21] @ sc @ str_int sr @ [CHR 0x3A] @ ec @ (if 0 < er then str_int er else [])"
  shows "extract_a1 g = (t, sc, sr, ec, er)"
proof -
  define erd where "erd = (if 0 < er then str_int er else [])"
  have erd: "digits erd" "int_of_str erd = er"
  proof -
    show "digits erd"
      using str_int_pos(1) [of er] by (cases "0 < er") (simp_all add: erd_def digits_def)
    show "int_of_str erd = er"
      using str_int_pos(3) [of er] assms(6) by (cases "0 < er") (simp_all add: erd_def int_of_str_Nil)
  qed
  note srd = str_int_pos [OF assms(4)]
  have "a1_re ([] @ t @ [CHR 0x21] @ sc @ str_int sr @ [CHR 0x3A] @ ec @ erd @ []) =
          Some (t, sc, str_int sr, ec, erd)"
    by (rule a1_re_build_sheet) (use assms erd srd in simp_all)
  then have m: "a1_re g = Some (t, sc, str_int sr, ec, erd)"
    by (simp add: assms(7) erd_def)
  show ?thesis
    unfolding extract_a1_match [OF m] using assms(3,4) srd(3) erd(2) by simp
qed

lemma set_a1_built:
  assumes "sheet_tok t" "cap3 sc" "sc \<noteq> []" "0 < sr" "cap3 ec" "ec \<noteq> []" "0 \<le> er"
    and "g = t @ [CHR 0x21] @ sc @ str_int sr @ [CHR 0x3A] @ ec @ (if 0 < er then str_int er else [])"
  shows "set_a1 self g =
           (if col_to_int sc \<le> col_to_int ec
            then (True, \<lparr>a1 = g, sheet = t, start_col = sc, end_col = ec,
                   start_col_int = col_to_int sc, end_col_int = col_to_int ec,
                   start_row = sr, end_row = er\<rparr>)
            else (False, self))"
proof -
  have "extract_a1 g = (t, sc, sr, ec, er)"
    by (rule extract_a1_built [OF assms(1-5,7,8)])
  moreover have "valid_dimensions (t, sc, sr, ec, er) \<longleftrightarrow> col_to_int sc \<le> col_to_int ec"
    using assms(3,6) by (simp add: valid_dimensions_def)
  ultimately show ?thesis by (simp add: set_a1_def)
qed

subsection \<open>Update and append\<close>

lemma generate_a1_total:
  assumes "sc \<noteq> []"
  shows "\<exists>g. generate_a1 t (ColStr sc) sr (ColStr ec) er = Inr g"
  using assms by (simp add: generate_a1_def truthy_def col_label_def Let_def)

lemma update_rows_eq:
  "update self None None None None (Some v) =
     (case generate_a1 (sheet self) (ColStr (start_col self)) (start_row self) (ColStr (end_col self)) v of
        Inl e \<Rightarrow> Inl e
      | Inr g \<Rightarrow> if g \<noteq> [] then Inr (set_a1 self g) else Inr (False, self))"
  by (simp add: update_def)

lemma update_cols_eq:
  assumes "int_to_col v = Inr c"
  shows "update self None None None (Some (ColInt v)) None =
     (case generate_a1 (sheet self) (ColStr (start_col self)) (start_row self) (ColStr c) (end_row self) of
        Inl e \<Rightarrow> Inl e
      | Inr g \<Rightarrow> if g \<noteq> [] then Inr (set_a1 self g) else Inr (False, self))"
  using assms by (simp add: update_def col_label_def)

lemma set_a1_result:
  "\<exists>b r'. set_a1 self g = (b, r') \<and> (\<not> b \<longrightarrow> r' = self)"
  by (cases rule: set_a1_cases [of g self]) blast+

lemma regenerated_result:
  assumes "generate_a1 t (ColStr sc) sr (ColStr ec) er = Inr g"
  shows "\<exists>b r'. (case generate_a1 t (ColStr sc) sr (ColStr ec) er of
                    Inl e \<Rightarrow> Inl e
                  | Inr g \<Rightarrow> if g \<noteq> [] then Inr (set_a1 self g) else Inr (False, self)) = Inr (b, r')
            \<and> (\<not> b \<longrightarrow> r' = self)"
  using assms set_a1_result [of self g] by (cases "g = []") auto

lemma append_rows_total:
  assumes "wf_range r"
  shows "\<exists>b r'. append_rows r n = Inr (b, r') \<and> (\<not> b \<longrightarrow> r' = r)"
proof (cases "rows_bounded r \<and> n \<noteq> 0 \<and> 0 < end_row r + n")
  case False
  then show ?thesis by (auto simp: append_rows_def Let_def)
next
  case True
  with assms have "start_col r \<noteq> []" by (auto simp: wf_range_def rows_bounded_def)
  from generate_a1_total [OF this] obtain g where
    "generate_a1 (sheet r) (ColStr (start_col r)) (start_row r) (ColStr (end_col r)) (end_row r + n) = Inr g"
    by blast
  from regenerated_result [OF this, of r] True show ?thesis
    by (simp add: append_rows_def Let_def update_rows_eq)
qed

lemma append_cols_total:
  assumes "wf_range r"
  shows "\<exists>b r'. append_cols r n = Inr (b, r') \<and> (\<not> b \<longrightarrow> r' = r)"
proof (cases "cols_bounded r \<and> n \<noteq> 0 \<and> 0 < col_to_int (end_col r) + n \<and>
              col_to_int (end_col r) + n \<le> GoogleSheetsMaxColumns")
  case False
  then show ?thesis by (auto simp: append_cols_def Let_def)
next
  case True
  then have "0 \<le> col_to_int (end_col r) + n" by simp
  from int_to_col_nonneg [OF this] obtain c where c: "int_to_col (col_to_int (end_col r) + n) = Inr c"
    by blast
  from True have "start_col r \<noteq> []" by (simp add: cols_bounded_def)
  from generate_a1_total [OF this] obtain g where
    "generate_a1 (sheet r) (ColStr (start_col r)) (start_row r) (ColStr c) (end_row r) = Inr g"
    by blast
  from regenerated_result [OF this, of r] True show ?thesis
    by (simp add: append_cols_def Let_def update_cols_eq [OF c])
qed

lemma append_rows_success:
  assumes "wf_range r" "rows_bounded r" "cols_bounded r" "sheet r \<noteq> []" "n \<noteq> 0" "0 < end_row r + n"
    and "g = quote_title (sheet r) @ [CHR 0x21] @ start_col r @ str_int (start_row r) @
             [CHR 0x3A] @ end_col r @ str_int (end_row r + n)"
  shows "append_rows r n =
           Inr (True, r\<lparr>a1 := g, sheet := quote_title (sheet r), end_row := end_row r + n\<rparr>)"
proof -
  from assms(1-4) have w: "sheet_tok (sheet r)" "cap3 (start_col r)" "start_col r \<noteq> []"
      "0 < start_row r" "cap3 (end_col r)" "end_col r \<noteq> []"
      "col_to_int (start_col r) \<le> col_to_int (end_col r)"
    by (auto simp: wf_range_def rows_bounded_def cols_bounded_def)
  have gen: "generate_a1 (sheet r) (ColStr (start_col r)) (start_row r) (ColStr (end_col r)) (end_row r + n) = Inr g"
    using generate_a1_range [OF sheet_tok_a1_sheet_re [OF w(1)] a1_col_re_cap3 [OF w(2,3)] w(3,4)]
      a1_col_re_cap3 [OF w(5,6)] w(6) assms(6,7)
    by simp
  have ne: "g \<noteq> []" by (simp add: assms(7))
  have "set_a1 r g = (True, \<lparr>a1 = g, sheet = quote_title (sheet r), start_col = start_col r,
           end_col = end_col r, start_col_int = col_to_int (start_col r),
           end_col_int = col_to_int (end_col r), start_row = start_row r, end_row = end_row r + n\<rparr>)"
    using set_a1_built [OF sheet_tok_quote_title [OF w(1)] w(2,3,4,5,6), of "end_row r + n" g r]
      w(7) assms(6,7)
    by simp
  moreover have "\<lparr>a1 = g, sheet = quote_title (sheet r), start_col = start_col r,
           end_col = end_col r, start_col_int = col_to_int (start_col r),
           end_col_int = col_to_int (end_col r), start_row = start_row r, end_row = end_row r + n\<rparr>
         = r\<lparr>a1 := g, sheet := quote_title (sheet r), end_row := end_row r + n\<rparr>"
    using assms(1) by (simp add: wf_range_def)
  ultimately show ?thesis
    using assms(2,5,6) gen ne by (simp add: append_rows_def Let_def update_rows_eq)
qed

lemma append_cols_regenerated:
  assumes "wf_range r" "cols_bounded r" "sheet r \<noteq> []" "n \<noteq> 0"
    and "0 < end_col_int r + n" "end_col_int r + n \<le> GoogleSheetsMaxColumns"
    and "int_to_col (end_col_int r + n) = Inr c" "col_to_int c = end_col_int r + n"
    and "g = quote_title (sheet r) @ [CHR 0x21] @ start_col r @ str_int (start_row r) @
             [CHR 0x3A] @ c @ (if 0 < end_row r then str_int (end_row r) else [])"
  shows "append_cols r n =
           (if start_col_int r \<le> end_col_int r + n
            then Inr (True, r\<lparr>a1 := g, sheet := quote_title (sheet r), end_col := c,
                              end_col_int := end_col_int r + n\<rparr>)
            else Inr (False, r))"
proof -
  from assms(1-3) have w: "sheet_tok (sheet r)" "cap3 (start_col r)" "start_col r \<noteq> []"
      "0 < start_row r" "0 \<le> end_row r"
      "start_col_int r = col_to_int (start_col r)" "end_col_int r = col_to_int (end_col r)"
    by (auto simp: wf_range_def cols_bounded_def)
  from assms(5) have "0 \<le> end_col_int r + n" by simp
  from int_to_col_nonneg [OF this] assms(7) have c3: "cap3 c" by simp
  from assms(5,8) have cne: "c \<noteq> []" by (auto simp: col_to_int_Nil)
  have gen: "generate_a1 (sheet r) (ColStr (start_col r)) (start_row r) (ColStr c) (end_row r) = Inr g"
    using generate_a1_range [OF sheet_tok_a1_sheet_re [OF w(1)] a1_col_re_cap3 [OF w(2,3)] w(3,4)]
      a1_col_re_cap3 [OF c3 cne] cne assms(9)
    by simp
  have ne: "g \<noteq> []" by (simp add: assms(9))
  have upd: "append_cols r n = Inr (set_a1 r g)"
    using assms(2,4,5,6) gen ne w(7)
    by (simp add: append_cols_def Let_def update_cols_eq [OF assms(7) [unfolded w(7)]])
  have "set_a1 r g =
     (if col_to_int (start_col r) \<le> col_to_int c
      then (True, \<lparr>a1 = g, sheet = quote_title (sheet r), start_col = start_col r,
           end_col = c, start_col_int = col_to_int (start_col r),
           end_col_int = col_to_int c, start_row = start_row r, end_row = end_row r\<rparr>)
      else (False, r))"
    by (rule set_a1_built [OF sheet_tok_quote_title [OF w(1)] w(2,3,4) c3 cne w(5) assms(9)])
  moreover have "\<lparr>a1 = g, sheet = quote_title (sheet r), start_col = start_col r,
           end_col = c, start_col_int = col_to_int (start_col r),
           end_col_int = col_to_int c, start_row = start_row r, end_row = end_row r\<rparr>
         = r\<lparr>a1 := g, sheet := quote_title (sheet r), end_col := c,
              end_col_int := end_col_int r + n\<rparr>"
    using w(6) assms(8) by simp
  ultimately show ?thesis
    unfolding upd using w(6) assms(8) by simp
qed

lemma append_cols_no_title:
  assumes "sheet r = []" "cols_bounded r" "n \<noteq> 0"
    and "0 < col_to_int (end_col r) + n" "col_to_int (end_col r) + n \<le> GoogleSheetsMaxColumns"
  shows "append_cols r n = Inr (False, r)"
proof -
  from assms(4) have "0 \<le> col_to_int (end_col r) + n" by simp
  from int_to_col_nonneg [OF this] obtain c where c: "int_to_col (col_to_int (end_col r) + n) = Inr c"
    by blast
  have "generate_a1 [] (ColStr (start_col r)) (start_row r) (ColStr c) (end_row r) = Inr []"
    by (simp add: generate_a1_def a1_sheet_re_def)
  with assms show ?thesis
    by (simp add: append_cols_def Let_def update_cols_eq [OF c])
qed

subsection \<open>Validity of a constructed object\<close>

lemma extract_a1_Nil: "extract_a1 [] = ([], [], 0, [], 0)"
  by code_simp

lemma new_valid_iff: "valid (GoogleSheetsA1Notation s) \<longleftrightarrow> valid_dimensions (extract_a1 s)"
proof (cases s rule: new_cases)
  case invalid
  have "\<not> valid_dimensions (extract_a1 s)"
  proof (cases "s = []")
    case True
    then show ?thesis by (simp add: extract_a1_Nil valid_dimensions_def)
  next
    case False
    show ?thesis
    proof
      assume "valid_dimensions (extract_a1 s)"
      with False have "a1 (GoogleSheetsA1Notation s) = s"
        by (simp add: GoogleSheetsA1Notation_def set_a1_def split: prod.splits)
      with invalid False show False by (simp add: reset_def)
    qed
  qed
  with invalid show ?thesis by (simp add: valid_def reset_def)
next
  case (parsed sh sc sr ec er)
  then show ?thesis by (simp add: valid_def)
qed

lemma sheet_only_re_ne:
  assumes "sheet_only_re s = Some g0"
  shows "g0 \<noteq> []"
proof -
  from assms obtain t where "sheet_tok t" "g0 = takeWhile is_space s @ t"
    by (auto simp: sheet_only_re_def Let_def split: if_splits)
  with sheet_tok_hd(1) [of t] show ?thesis by simp
qed

lemma col_to_int_A: "col_to_int ''A'' = 1"
  by code_simp

lemma parsed_fields:
  assumes "r = GoogleSheetsA1Notation s" "valid r" "a1_re s = Some (t, sc, sr, ec, er)"
  shows "(sc = [] \<and> int_of_str sr \<noteq> 0 \<longrightarrow> start_col r = ''A'' \<and> start_row r = int_of_str sr) \<and>
         (sc \<noteq> [] \<and> int_of_str sr = 0 \<longrightarrow> start_col r = sc \<and> start_row r = 1) \<and>
         (sc \<noteq> [] \<and> int_of_str sr \<noteq> 0 \<longrightarrow> start_col r = sc \<and> start_row r = int_of_str sr) \<and>
         (sc = [] \<and> int_of_str sr = 0 \<longrightarrow> start_col r = [] \<and> start_row r = 0) \<and>
         end_col r = ec \<and> end_row r = int_of_str er \<and>
         (ec = [] \<longrightarrow> end_col_int r = 0) \<and> (er = [] \<longrightarrow> end_row r = 0) \<and> sheet r = t"
proof (cases s rule: new_cases)
  case invalid
  with assms(1,2) show ?thesis by (simp add: valid_def reset_def)
next
  case (parsed sh sc' sr' ec' er')
  from parsed(2) have e: "(sh, sc', sr', ec', er') =
           (if int_of_str sr \<noteq> 0 \<and> sc = [] then (t, ''A'', int_of_str sr, ec, int_of_str er)
            else if sc \<noteq> [] \<and> int_of_str sr = 0 then (t, sc, 1, ec, int_of_str er)
            else (t, sc, int_of_str sr, ec, int_of_str er))"
    unfolding extract_a1_match [OF assms(3)] by simp
  have r: "start_col r = sc'" "start_row r = sr'" "end_col r = ec'" "end_row r = er'"
    "sheet r = sh" "end_col_int r = col_to_int ec'"
    unfolding assms(1) parsed(4) by simp_all
  from e show ?thesis
    unfolding r by (auto simp: col_to_int_Nil int_of_str_Nil split: if_splits)
qed

lemma a1_re_build:
  assumes "list_all is_space ws" "list_all is_space w"
    and "tp = [] \<and> t = [] \<or> sheet_tok t \<and> tp = t @ [CHR 0x21]"
    and "cap3 sc" "digits sr" "cap3 ec" "digits er"
  shows "a1_re (ws @ tp @ sc @ sr @ [CHR 0x3A] @ ec @ er @ w) = Some (t, sc, sr, ec, er)"
proof -
  from assms(3) consider "tp = []" "t = []" | "sheet_tok t" "tp = t @ [CHR 0x21]" by blast
  then show ?thesis
  proof cases
    case 1
    with a1_re_build_bare [OF assms(1,4-7,2)] show ?thesis by simp
  next
    case 2
    with a1_re_build_sheet [OF assms(1) 2(1) assms(4-7,2)] show ?thesis by simp
  qed
qed

lemma a1_re_shape:
  assumes "a1_re s = Some (t, sc, sr, ec, er)"
  shows "\<exists>ws w tp. list_all is_space ws \<and> list_all is_space w \<and>
           (tp = [] \<and> t = [] \<or> sheet_tok t \<and> tp = t @ [CHR 0x21]) \<and>
           (s = ws @ tp @ sc @ sr @ [CHR 0x3A] @ ec @ er @ w \<or>
            s = ws @ tp @ w \<and> sc = [] \<and> sr = [] \<and> ec = [] \<and> er = [])"
proof -
  define ws where "ws = takeWhile is_space s"
  define r0 where "r0 = dropWhile is_space s"
  have s: "s = ws @ r0" by (simp add: ws_def r0_def)
  have ws: "list_all is_space ws" by (auto simp: ws_def list_all_iff dest: set_takeWhileD)
  have "\<exists>tp q. r0 = tp @ q \<and> (tp = [] \<and> t = [] \<or> sheet_tok t \<and> tp = t @ [CHR 0x21]) \<and>
          bounds_re q = Some (sc, sr, ec, er)"
  proof (cases "sheet_group r0")
    case None
    with assms have "bounds_re r0 = Some (sc, sr, ec, er)" "t = []"
      by (auto simp: a1_re_def r0_def split: option.splits)
    then show ?thesis by (intro exI [of _ "[]"] exI [of _ r0]) simp
  next
    case (Some g)
    with assms have "sheet_group r0 = Some (t, sc, sr, ec, er)"
      by (simp add: a1_re_def r0_def)
    from sheet_group_shape [OF this] obtain q where
      "sheet_tok t" "r0 = t @ [CHR 0x21] @ q" "bounds_re q = Some (sc, sr, ec, er)" by blast
    then show ?thesis by (intro exI [of _ "t @ [CHR 0x21]"] exI [of _ q]) simp
  qed
  then obtain tp q where q: "r0 = tp @ q" "tp = [] \<and> t = [] \<or> sheet_tok t \<and> tp = t @ [CHR 0x21]"
    "bounds_re q = Some (sc, sr, ec, er)" by blast
  from bounds_re_cases [OF q(3)]
  have "\<exists>w. list_all is_space w \<and>
          (q = sc @ sr @ [CHR 0x3A] @ ec @ er @ w \<or> q = w \<and> sc = [] \<and> sr = [] \<and> ec = [] \<and> er = [])"
  proof (elim disjE exE conjE)
    fix q5 assume "bounds_group q = Some (sc, sr, ec, er, q5)" "list_all is_space q5"
    with bounds_group_shape(1) [OF this(1)] show ?thesis by blast
  next
    assume "list_all is_space q" "sc = []" "sr = []" "ec = []" "er = []"
    then show ?thesis by blast
  qed
  then obtain w where w: "list_all is_space w"
    "q = sc @ sr @ [CHR 0x3A] @ ec @ er @ w \<or> q = w \<and> sc = [] \<and> sr = [] \<and> ec = [] \<and> er = []"
    by blast
  from w(2) have "s = ws @ tp @ sc @ sr @ [CHR 0x3A] @ ec @ er @ w \<or>
            s = ws @ tp @ w \<and> sc = [] \<and> sr = [] \<and> ec = [] \<and> er = []"
    unfolding s q(1) by auto
  with ws w(1) q(2) show ?thesis by blast
qed

subsection \<open>Single cells without a colon, and reshaping to zero columns\<close>

text \<open>
  For every text \<open>t\<close> before the \<^verbatim>\<open>!\<close>, every column label and every row number the
  string \<open>t!<col><row>\<close> matches neither pattern, so no bare cell ever parses; and
  \<^verbatim>\<open>reshape\<close> with zero columns, which regenerates the bare cell \<open>A1\<close>, fails on every
  object.
\<close>

lemma dropWhile_keep:
  assumes "\<not> P x"
  shows "\<exists>t'. dropWhile P (t @ x # ys) = t' @ x # ys"
proof (induction t)
  case Nil
  with assms show ?case by (intro exI [of _ "[]"]) simp
next
  case (Cons a t)
  then obtain t' where "dropWhile P (t @ x # ys) = t' @ x # ys" by blast
  then show ?case
    by (cases "P a") (auto intro: exI [of _ "a # t"])
qed

lemma bounds_re_bare_cell:
  assumes "cap3 c" "c \<noteq> []" "digits d"
  shows "bounds_re (c @ d) = None"
proof -
  have a: "takeWhile is_AZ (take 3 (c @ d)) = c"
    using assms by (intro takeWhile_take_stop) (cases d; auto simp: cap3_def digits_def is_digit_D)+
  have b: "takeWhile is_digit d = d"
    using assms(3) by (simp add: digits_def list_all_iff)
  have "bounds_group (c @ d) = None"
    unfolding bounds_group_def Let_def a by (simp add: b)
  moreover have "\<not> list_all is_space (c @ d)"
    using assms(1,2) by (cases c) (auto simp: cap3_def is_AZ_D)
  ultimately show ?thesis by (simp add: bounds_re_def)
qed

lemma bare_cell_no_match:
  assumes "cap3 c" "c \<noteq> []" "digits d"
  shows "a1_re (t @ [CHR 0x21] @ c @ d) = None" "sheet_only_re (t @ [CHR 0x21] @ c @ d) = None"
proof -
  let ?s = "t @ [CHR 0x21] @ c @ d"
  have nb: "CHR 0x21 \<notin> set (c @ d)"
    using assms(1,3) by (auto simp: cap3_def digits_def list_all_iff dest: is_AZ_D(6) is_digit_D(6))
  from dropWhile_keep [of is_space "CHR 0x21" t "c @ d"]
  obtain t' where r0: "dropWhile is_space ?s = t' @ [CHR 0x21] @ (c @ d)"
    by (auto simp: special_chars)
  have "sheet_group (t' @ [CHR 0x21] @ (c @ d)) = None"
    unfolding sheet_group_def Let_def sheet_group_split [OF nb]
    by (simp add: bounds_re_bare_cell [OF assms])
  moreover have "bounds_re (t' @ [CHR 0x21] @ (c @ d)) = None"
  proof (cases "bounds_re (t' @ [CHR 0x21] @ (c @ d))")
    case (Some g)
    obtain g1 g2 g3 g4 where "g = (g1, g2, g3, g4)" by (cases g) auto
    with Some bounds_re_no_bang [of "t' @ [CHR 0x21] @ (c @ d)" g1 g2 g3 g4] show ?thesis
      by simp
  qed simp
  ultimately show "a1_re ?s = None"
    unfolding a1_re_def Let_def r0 by simp
  define l where "l = last (c @ d)"
  have l: "is_AZ l \<or> is_digit l"
    using assms unfolding l_def
    by (cases d rule: rev_cases; cases c rule: rev_cases) (auto simp: cap3_def digits_def)
  have cd: "c @ d \<noteq> []" using assms(2) by simp
  have "last (t' @ [CHR 0x21] @ (c @ d)) = last (c @ d)"
    using cd by (simp only: last_appendR append_is_Nil_conv not_False_eq_True simp_thms)
  then have last: "last (t' @ [CHR 0x21] @ (c @ d)) = l" by (simp only: l_def)
  from l have lne: "l \<noteq> CHR 0x0A" "l \<noteq> CHR 0x22" "l \<noteq> CHR 0x27"
    by (auto simp: is_AZ_def is_digit_def ord_simps)
  have "\<not> sheet_tok (t' @ [CHR 0x21] @ (c @ d))"
    using last lne by (auto simp: sheet_tok_def quoted_def special_chars)
  then show "sheet_only_re ?s = None"
    unfolding sheet_only_re_def Let_def r0 using last lne(1) by simp
qed

lemma bare_cell_invalid:
  assumes "cap3 c" "c \<noteq> []" "digits d"
  shows "\<not> valid_dimensions (extract_a1 (t @ [CHR 0x21] @ c @ d))"
    "\<not> valid (GoogleSheetsA1Notation (t @ [CHR 0x21] @ c @ d))"
    "set_a1 self (t @ [CHR 0x21] @ c @ d) = (False, self)"
proof -
  note n = bare_cell_no_match [OF assms, of t]
  show v: "\<not> valid_dimensions (extract_a1 (t @ [CHR 0x21] @ c @ d))"
    unfolding extract_a1_no_match [OF n(1)] n(2) by (simp add: valid_dimensions_def)
  then show "\<not> valid (GoogleSheetsA1Notation (t @ [CHR 0x21] @ c @ d))"
    unfolding new_valid_iff .
  from v show "set_a1 self (t @ [CHR 0x21] @ c @ d) = (False, self)"
    by (simp add: set_a1_def)
qed

lemma int_to_col_0_1: "int_to_col 0 = Inr []" "int_to_col 1 = Inr ''A''"
  by code_simp+

lemma reshape_zero_cols:
  assumes "0 \<le> rows"
  shows "reshape self rows 0 = Inr (False, self)"
proof -
  have u: "reshape self rows 0 =
     (case generate_a1 (sheet self) (ColStr ''A'') 1 (ColStr []) rows of
        Inl e \<Rightarrow> Inl e
      | Inr g \<Rightarrow> if g \<noteq> [] then Inr (set_a1 self g) else Inr (False, self))"
    using assms by (simp add: reshape_def update_def col_label_def int_to_col_0_1)
  show ?thesis
  proof (cases "a1_sheet_re (sheet self)")
    case False
    then show ?thesis unfolding u by (simp add: generate_a1_def)
  next
    case True
    have one: "str_int 1 = ''1''" by code_simp
    have "digits ''1''" by code_simp
    from generate_a1_range [OF True a1_col_re_cap3 [OF cap3_A] cap3_A(2), of 1 "[]" rows]
    have g: "generate_a1 (sheet self) (ColStr ''A'') 1 (ColStr []) rows =
        Inr (quote_title (sheet self) @ [CHR 0x21] @ ''A'' @ ''1'')"
      by (simp add: one)
    from bare_cell_invalid(3) [OF cap3_A \<open>digits ''1''\<close>, of self "quote_title (sheet self)"]
    show ?thesis unfolding u g by simp
  qed
qed

subsection \<open>Titles and white space beyond ASCII\<close>

text \<open>
  The patterns are Unicode patterns: a title with a Latin-1 letter (\<open>0xE9\<close>, e acute) is
  a word, a no-break space (\<open>0xA0\<close>) and a next-line character (\<open>0x85\<close>) around the
  string are white space, and the multiplication sign (\<open>0xD7\<close>) is no word character.
\<close>

lemma latin1_inputs:
  "a1_re (''caf'' @ [CHR 0xE9] @ ''!A1:B2'') = Some (''caf'' @ [CHR 0xE9], ''A'', ''1'', ''B'', ''2'')"
  "valid (GoogleSheetsA1Notation (''caf'' @ [CHR 0xE9] @ ''!A1:B2''))"
  "a1_re ([CHR 0xA0] @ ''test!A1:B2'' @ [CHR 0x85]) = Some (''test'', ''A'', ''1'', ''B'', ''2'')"
  "valid (GoogleSheetsA1Notation ([CHR 0xA0] @ ''test!A1:B2'' @ [CHR 0x85]))"
  "\<not> valid (GoogleSheetsA1Notation (''a'' @ [CHR 0xD7] @ ''!A1:B2''))"
  by code_simp+

subsection \<open>The repository's tests on the model\<close>

text \<open>The assertions of \<^verbatim>\<open>test_valid_bounded\<close> and \<^verbatim>\<open>test_specials\<close>, evaluated.\<close>

lemma test_valid_bounded:
  "GoogleSheetsA1Notation ''test!C4:BX2'' =
     \<lparr>a1 = ''test!C4:BX2'', sheet = ''test'', start_col = ''C'', end_col = ''BX'',
      start_col_int = 3, end_col_int = 76, start_row = 4, end_row = 2\<rparr>"
  by code_simp

lemma test_specials:
  "append_rows (GoogleSheetsA1Notation ''test!C4:AB25'') 2 =
     Inr (True, GoogleSheetsA1Notation ''test!C4:AB27'')"
  "reduce_rows (GoogleSheetsA1Notation ''test!C4:AB27'') 5 =
     Inr (True, GoogleSheetsA1Notation ''test!C4:AB22'')"
  "append_cols (GoogleSheetsA1Notation ''test!C4:AB22'') 10 =
     Inr (True, GoogleSheetsA1Notation ''test!C4:AL22'')"
  "reduce_cols (GoogleSheetsA1Notation ''test!C4:AL22'') 18 =
     Inr (True, GoogleSheetsA1Notation ''test!C4:T22'')"
  "len_a1 (GoogleSheetsA1Notation ''test!C4:T22'') = 324"
  "update (GoogleSheetsA1Notation ''other!E7:Z22'') (Some ''test'') (Some (ColStr ''BC'')) None None None =
     Inr (False, GoogleSheetsA1Notation ''other!E7:Z22'')"
  by code_simp+

section \<open>The claims\<close>

subsection \<open>Column codec\<close>

text \<open>
  Claim C1: the column codec is a bijection on its domain, \<open>colToInt(intToCol(i)) = i\<close> for
  every \<open>i\<close> in \<open>[1, 18278]\<close> and \<open>intToCol(colToInt(s)) = s\<close> for every label of one to
  three capitals. The code breaks both at the first carry: index 26 is rendered as
  \<open>A\<close>, which reads back as 1, and the label \<open>Z\<close> (index 26) comes back as \<open>A\<close>.
\<close>

theorem C1_codec_breaks_at_26:
  "int_to_col 26 = Inr ''A'' \<and> col_to_int ''A'' = 1 \<and>
   col_to_int ''Z'' = 26 \<and> int_to_col (col_to_int ''Z'') \<noteq> Inr ''Z''"
  by code_simp

subsection \<open>Single cells\<close>

text \<open>
  Claim C2: a single bare cell such as \<open>test!A45\<close> parses to a valid one-cell range. In
  the code the bounds group of the pattern needs its colon, so neither pattern matches
  \<open>test!A45\<close> and the object stays invalid, although \<^verbatim>\<open>generate_a1\<close> produces this very
  string for a start cell without an end. Lemma \<open>bare_cell_invalid\<close> shows the same for
  every title, column label and row number.
\<close>

theorem C2_bare_cell_rejected:
  "a1_re ''test!A45'' = None \<and> sheet_only_re ''test!A45'' = None \<and>
   \<not> valid (GoogleSheetsA1Notation ''test!A45'') \<and>
   generate_a1 ''test'' (ColStr ''A'') 45 (ColStr []) 0 = Inr ''test!A45''"
  by code_simp

subsection \<open>Reshape\<close>

text \<open>
  Claim C5: \<open>reshape(rows, cols)\<close> with both arguments non-negative always succeeds, and
  a zero makes that dimension unbounded. In the code a zero column count leaves the end
  column empty, the generated string is the single cell \<open>test!A1\<close>, which \<^verbatim>\<open>set_a1\<close>
  rejects: the call reports failure and the range keeps its old value. Lemma
  \<open>reshape_zero_cols\<close> shows this for every object and every row count.
\<close>

theorem C5_reshape_zero_cols_fails:
  "reshape (GoogleSheetsA1Notation ''test!C4:AB25'') 0 0 =
     Inr (False, GoogleSheetsA1Notation ''test!C4:AB25'') \<and>
   reshape (GoogleSheetsA1Notation ''test!C4:AB25'') 5 0 =
     Inr (False, GoogleSheetsA1Notation ''test!C4:AB25'') \<and>
   valid (GoogleSheetsA1Notation ''test!C4:AB25'')"
  by code_simp

subsection \<open>Exceptions\<close>

text \<open>
  Claim C9: no operation raises; in particular \<open>generate\<close> with an empty start column and
  a positive start row returns a string. The code raises TypeError there, and \<^verbatim>\<open>update\<close>
  passes the exception on; \<^verbatim>\<open>int_to_col\<close> raises ValueError on a large negative index.
\<close>

theorem C9_generate_raises:
  "generate_a1 ''test'' (ColStr []) 4 (ColStr []) 0 = Inl TypeError \<and>
   update (GoogleSheetsA1Notation ''test'') None None (Some 4) None None = Inl TypeError \<and>
   int_to_col (- 100000) = Inl ValueError"
  by code_simp

subsection \<open>Cell count\<close>

text \<open>
  Claim C7: the cell count of a parsed range is
  \<open>(endRow - startRow) * (endColIndex - startColIndex + 1)\<close> when the range is fully
  bounded (both rows non-zero, both columns non-empty) and 0 otherwise; the column
  indices are those of the two labels. The witness evaluates the four ranges of the
  claim: \<open>test!6:A8\<close> has 2 cells, \<open>test!B:Z\<close>, \<open>test\<close> and \<open>test!6:10\<close> have 0.
\<close>

theorem C7_cell_count:
  assumes "r = GoogleSheetsA1Notation s"
  shows "(bounded r \<longrightarrow>
            len_a1 r = (end_row r - start_row r) * (end_col_int r - start_col_int r + 1)) \<and>
         (\<not> bounded r \<longrightarrow> len_a1 r = 0) \<and>
         (bounded r \<longleftrightarrow> start_row r \<noteq> 0 \<and> end_row r \<noteq> 0 \<and> start_col r \<noteq> [] \<and> end_col r \<noteq> []) \<and>
         start_col_int r = col_to_int (start_col r) \<and> end_col_int r = col_to_int (end_col r)"
proof -
  have ints: "start_col_int r = col_to_int (start_col r) \<and> end_col_int r = col_to_int (end_col r)"
    unfolding assms
    by (cases s rule: new_cases) (simp_all add: reset_def col_to_int_Nil)
  then show ?thesis
    by (auto simp: len_a1_def bounded_def rows_bounded_def cols_bounded_def)
qed

theorem C7_cell_count_witness:
  "len_a1 (GoogleSheetsA1Notation ''test!6:A8'') = 2 \<and>
   len_a1 (GoogleSheetsA1Notation ''test!B:Z'') = 0 \<and>
   len_a1 (GoogleSheetsA1Notation ''test'') = 0 \<and>
   len_a1 (GoogleSheetsA1Notation ''test!6:10'') = 0"
proof -
  have b1: "bounded (GoogleSheetsA1Notation ''test!6:A8'')" by code_simp
  have v1: "(end_row (GoogleSheetsA1Notation ''test!6:A8'') - start_row (GoogleSheetsA1Notation ''test!6:A8'')) *
            (end_col_int (GoogleSheetsA1Notation ''test!6:A8'') - start_col_int (GoogleSheetsA1Notation ''test!6:A8'') + 1) = 2"
    by code_simp
  have b2: "\<not> bounded (GoogleSheetsA1Notation ''test!B:Z'')" by code_simp
  have b3: "\<not> bounded (GoogleSheetsA1Notation ''test'')" by code_simp
  have b4: "\<not> bounded (GoogleSheetsA1Notation ''test!6:10'')" by code_simp
  from C7_cell_count [OF refl, of "''test!6:A8''"] b1 v1
  have "len_a1 (GoogleSheetsA1Notation ''test!6:A8'') = 2" by simp
  moreover from C7_cell_count [OF refl, of "''test!B:Z''"] b2
  have "len_a1 (GoogleSheetsA1Notation ''test!B:Z'') = 0" by blast
  moreover from C7_cell_count [OF refl, of "''test''"] b3
  have "len_a1 (GoogleSheetsA1Notation ''test'') = 0" by blast
  moreover from C7_cell_count [OF refl, of "''test!6:10''"] b4
  have "len_a1 (GoogleSheetsA1Notation ''test!6:10'') = 0" by blast
  ultimately show ?thesis by blast
qed

subsection \<open>Containment\<close>

text \<open>
  Claim C8: \<^verbatim>\<open>contains\<close> holds between a valid range and an equal copy, fails whenever
  the two sheet titles differ, and holds for every valid inner range on the same sheet
  when the outer range is valid and bounded in neither dimension.
\<close>

theorem C8_contains:
  "(valid r \<longrightarrow> contains r r) \<and>
   (sheet b \<noteq> sheet r \<longrightarrow> \<not> contains r b) \<and>
   (valid r \<and> valid b \<and> sheet b = sheet r \<and> \<not> rows_bounded r \<and> \<not> cols_bounded r
      \<longrightarrow> contains r b) \<and>
   (valid (GoogleSheetsA1Notation s) \<longrightarrow> contains_str (GoogleSheetsA1Notation s) s)"
  by (auto simp: contains_def contains_str_def valid_def bounded_def)

theorem C8_contains_witness:
  "contains (GoogleSheetsA1Notation ''test!C4:AL22'') (GoogleSheetsA1Notation ''test!C4:AL22'') \<and>
   \<not> contains (GoogleSheetsA1Notation ''test!C4:AL22'') (GoogleSheetsA1Notation ''other!E7:Z22'') \<and>
   contains (GoogleSheetsA1Notation ''test'') (GoogleSheetsA1Notation ''test!E7:Z22'') \<and>
   contains_str (GoogleSheetsA1Notation ''test!3:7'') ''test!3:7'' \<and>
   contains (GoogleSheetsA1Notation ''test!C4:AL22'') (GoogleSheetsA1Notation ''test!E7:Z22'')"
proof -
  let ?o = "GoogleSheetsA1Notation ''test!C4:AL22''"
  let ?i = "GoogleSheetsA1Notation ''test!E7:Z22''"
  let ?x = "GoogleSheetsA1Notation ''other!E7:Z22''"
  let ?u = "GoogleSheetsA1Notation ''test''"
  let ?w = "GoogleSheetsA1Notation ''test!3:7''"
  have v: "valid ?o" "valid ?i" "valid ?u" "valid ?w" by code_simp+
  have d: "sheet ?x \<noteq> sheet ?o" by code_simp
  have u: "sheet ?i = sheet ?u" "\<not> rows_bounded ?u" "\<not> cols_bounded ?u" by code_simp+
  have ex: "contains ?o ?i" by code_simp
  from C8_contains [of ?o ?x "''test!3:7''"] v d have p1: "contains ?o ?o" "\<not> contains ?o ?x" "contains_str ?w ''test!3:7''"
    by blast+
  from C8_contains [of ?u ?i "[]"] v u have p2: "contains ?u ?i" by blast
  from p1 p2 ex show ?thesis by blast
qed

subsection \<open>The stored string\<close>

text \<open>
  Claim C10: a range that parsed successfully stores the input as it was given:
  \<^verbatim>\<open>__str__\<close> returns it unchanged (white space included, inferred anchors not written
  in) and \<^verbatim>\<open>__eq__\<close> holds against that string and no other.
\<close>

theorem C10_verbatim:
  assumes "valid (GoogleSheetsA1Notation s)"
  shows "a1 (GoogleSheetsA1Notation s) = s \<and> str_a1 (GoogleSheetsA1Notation s) = s \<and>
         (\<forall>v. eq_a1 (GoogleSheetsA1Notation s) v \<longleftrightarrow> v = s)"
proof -
  have ne: "s \<noteq> []"
    using assms by (auto simp: GoogleSheetsA1Notation_def valid_def reset_def)
  have stored: "a1 (GoogleSheetsA1Notation s) = s"
  proof (cases "valid_dimensions (extract_a1 s)")
    case True
    then show ?thesis
      using ne by (simp add: GoogleSheetsA1Notation_def set_a1_def split: prod.splits)
  next
    case False
    then have "GoogleSheetsA1Notation s = reset"
      using ne by (simp add: GoogleSheetsA1Notation_def set_a1_def)
    with assms show ?thesis by (simp add: valid_def reset_def)
  qed
  with ne show ?thesis
    by (auto simp: str_a1_def eq_a1_def)
qed

theorem C10_verbatim_witness:
  "valid (GoogleSheetsA1Notation '' test!4:ASC '') \<and>
   start_col (GoogleSheetsA1Notation '' test!4:ASC '') = ''A'' \<and>
   str_a1 (GoogleSheetsA1Notation '' test!4:ASC '') = '' test!4:ASC '' \<and>
   eq_a1 (GoogleSheetsA1Notation '' test!4:ASC '') '' test!4:ASC '' \<and>
   \<not> eq_a1 (GoogleSheetsA1Notation '' test!4:ASC '') ''test!A4:ASC''"
proof -
  have h: "valid (GoogleSheetsA1Notation '' test!4:ASC '')" by code_simp
  have sc: "start_col (GoogleSheetsA1Notation '' test!4:ASC '') = ''A''" by code_simp
  note t = C10_verbatim [OF h]
  from t have e: "\<And>v. eq_a1 (GoogleSheetsA1Notation '' test!4:ASC '') v \<longleftrightarrow> v = '' test!4:ASC ''"
    by blast
  have e2: "\<not> eq_a1 (GoogleSheetsA1Notation '' test!4:ASC '') ''test!A4:ASC''"
    unfolding e by simp
  from t h sc e e2 show ?thesis by blast
qed

subsection \<open>Appending and reducing rows and columns\<close>

text \<open>
  Claim C6, as amended. For every valid range \<open>r\<close> (every valid range is the result of
  parsing its own string):
  \<^item> \<^verbatim>\<open>append_rows\<close> and \<^verbatim>\<open>append_cols\<close> never raise, and when they report failure every
    field of the range is unchanged;
  \<^item> on a dimension that is not bounded, or with \<open>n = 0\<close>, they report success and change
    nothing;
  \<^item> on a bounded dimension with \<open>n \<noteq> 0\<close> they report failure when the new end bound is
    \<open>\<le> 0\<close> or, for columns, above 18278;
  \<^item> \<^verbatim>\<open>append_cols\<close> also reports failure when the new end column, rendered by
    \<^verbatim>\<open>int_to_col\<close> to a label that reads back as the same index, lies before the start
    column: the regenerated string breaks the column order and \<^verbatim>\<open>set_a1\<close> rejects it;
  \<^item> on a fully bounded range with a title, \<^verbatim>\<open>append_rows\<close> succeeds whenever the new end
    row is positive; the end row grows by exactly \<open>n\<close>, the other three bounds stay;
  \<^item> on a range with a title and bounded columns, \<^verbatim>\<open>append_cols\<close> succeeds whenever the
    new index is between the start column and 18278 and its label reads back as the same
    index; the end column index grows by exactly \<open>n\<close>, the other three bounds stay;
  \<^item> \<^verbatim>\<open>reduce_rows\<close> and \<^verbatim>\<open>reduce_cols\<close> are the appends of \<open>- n\<close>.

  The claim as written promises success for every new end bound in range. The
  counterexample is \<open>test!C4:F5\<close> with \<open>append_cols(-5)\<close>: the new end column is 1
  (\<open>A\<close>), in range, but before the start column \<open>C\<close>, and the call reports failure.
\<close>

theorem C6_append_amended:
  assumes "r = GoogleSheetsA1Notation s" "valid r"
  shows
    "(\<not> rows_bounded r \<or> n = 0 \<longrightarrow> append_rows r n = Inr (True, r)) \<and>
     (rows_bounded r \<and> n \<noteq> 0 \<and> end_row r + n \<le> 0 \<longrightarrow> append_rows r n = Inr (False, r)) \<and>
     (\<exists>b r'. append_rows r n = Inr (b, r') \<and> (\<not> b \<longrightarrow> r' = r)) \<and>
     (bounded r \<and> sheet r \<noteq> [] \<and> 0 < end_row r + n \<longrightarrow>
        (\<exists>r'. append_rows r n = Inr (True, r') \<and> valid r' \<and> end_row r' = end_row r + n \<and>
              start_row r' = start_row r \<and> start_col r' = start_col r \<and> end_col r' = end_col r)) \<and>
     (\<not> cols_bounded r \<or> n = 0 \<longrightarrow> append_cols r n = Inr (True, r)) \<and>
     (cols_bounded r \<and> n \<noteq> 0 \<and>
        (end_col_int r + n \<le> 0 \<or> GoogleSheetsMaxColumns < end_col_int r + n) \<longrightarrow>
        append_cols r n = Inr (False, r)) \<and>
     (\<exists>b r'. append_cols r n = Inr (b, r') \<and> (\<not> b \<longrightarrow> r' = r)) \<and>
     (cols_bounded r \<and> n \<noteq> 0 \<and> int_to_col (end_col_int r + n) = Inr c \<and>
        col_to_int c = end_col_int r + n \<and> 0 < end_col_int r + n \<and>
        end_col_int r + n < start_col_int r \<longrightarrow>
        append_cols r n = Inr (False, r)) \<and>
     (cols_bounded r \<and> n \<noteq> 0 \<and> sheet r \<noteq> [] \<and> int_to_col (end_col_int r + n) = Inr c \<and>
        col_to_int c = end_col_int r + n \<and> start_col_int r \<le> end_col_int r + n \<and>
        end_col_int r + n \<le> GoogleSheetsMaxColumns \<longrightarrow>
        (\<exists>r'. append_cols r n = Inr (True, r') \<and> valid r' \<and>
              end_col_int r' = end_col_int r + n \<and> end_col r' = c \<and>
              start_col r' = start_col r \<and> start_row r' = start_row r \<and> end_row r' = end_row r)) \<and>
     reduce_rows r n = append_rows r (- n) \<and> reduce_cols r n = append_cols r (- n)"
proof -
  have wf: "wf_range r"
    using assms new_wf(1) [of s] by simp
  have eci: "end_col_int r = col_to_int (end_col r)" and sci: "start_col_int r = col_to_int (start_col r)"
    using wf by (simp_all add: wf_range_def)
  have sc_pos: "1 \<le> start_col_int r" if "cols_bounded r"
    using that wf col_to_int_pos [of "start_col r"] by (simp add: wf_range_def cols_bounded_def)
  have r1: "\<not> rows_bounded r \<or> n = 0 \<longrightarrow> append_rows r n = Inr (True, r)"
    by (auto simp: append_rows_def)
  have r2: "rows_bounded r \<and> n \<noteq> 0 \<and> end_row r + n \<le> 0 \<longrightarrow> append_rows r n = Inr (False, r)"
    by (auto simp: append_rows_def Let_def)
  have r3: "\<exists>b r'. append_rows r n = Inr (b, r') \<and> (\<not> b \<longrightarrow> r' = r)"
    by (rule append_rows_total [OF wf])
  have r4: "bounded r \<and> sheet r \<noteq> [] \<and> 0 < end_row r + n \<longrightarrow>
        (\<exists>r'. append_rows r n = Inr (True, r') \<and> valid r' \<and> end_row r' = end_row r + n \<and>
              start_row r' = start_row r \<and> start_col r' = start_col r \<and> end_col r' = end_col r)"
  proof (intro impI, elim conjE)
    assume b: "bounded r" "sheet r \<noteq> []" "0 < end_row r + n"
    show "\<exists>r'. append_rows r n = Inr (True, r') \<and> valid r' \<and> end_row r' = end_row r + n \<and>
              start_row r' = start_row r \<and> start_col r' = start_col r \<and> end_col r' = end_col r"
    proof (cases "n = 0")
      case True
      with assms(2) show ?thesis by (simp add: append_rows_def)
    next
      case False
      from b(1) have "rows_bounded r" "cols_bounded r" by (simp_all add: bounded_def)
      from append_rows_success [OF wf this b(2) False b(3) refl]
      show ?thesis by (simp add: valid_def)
    qed
  qed
  have c1: "\<not> cols_bounded r \<or> n = 0 \<longrightarrow> append_cols r n = Inr (True, r)"
    by (auto simp: append_cols_def)
  have c2: "cols_bounded r \<and> n \<noteq> 0 \<and>
        (end_col_int r + n \<le> 0 \<or> GoogleSheetsMaxColumns < end_col_int r + n) \<longrightarrow>
        append_cols r n = Inr (False, r)"
    unfolding eci by (auto simp: append_cols_def Let_def)
  have c3: "\<exists>b r'. append_cols r n = Inr (b, r') \<and> (\<not> b \<longrightarrow> r' = r)"
    by (rule append_cols_total [OF wf])
  have c4: "cols_bounded r \<and> n \<noteq> 0 \<and> int_to_col (end_col_int r + n) = Inr c \<and>
        col_to_int c = end_col_int r + n \<and> 0 < end_col_int r + n \<and>
        end_col_int r + n < start_col_int r \<longrightarrow>
        append_cols r n = Inr (False, r)"
  proof (intro impI, elim conjE)
    assume h: "cols_bounded r" "n \<noteq> 0" "int_to_col (end_col_int r + n) = Inr c"
      "col_to_int c = end_col_int r + n" "0 < end_col_int r + n" "end_col_int r + n < start_col_int r"
    show "append_cols r n = Inr (False, r)"
    proof (cases "end_col_int r + n \<le> GoogleSheetsMaxColumns")
      case False
      with h(1,2) show ?thesis unfolding eci by (simp add: append_cols_def Let_def)
    next
      case True
      show ?thesis
      proof (cases "sheet r = []")
        case True
        from append_cols_no_title [OF True h(1,2)] h(5) \<open>end_col_int r + n \<le> GoogleSheetsMaxColumns\<close>
        show ?thesis unfolding eci by simp
      next
        case False
        from append_cols_regenerated [OF wf h(1) False h(2,5) True h(3,4) refl] h(6)
        show ?thesis by simp
      qed
    qed
  qed
  have c5: "cols_bounded r \<and> n \<noteq> 0 \<and> sheet r \<noteq> [] \<and> int_to_col (end_col_int r + n) = Inr c \<and>
        col_to_int c = end_col_int r + n \<and> start_col_int r \<le> end_col_int r + n \<and>
        end_col_int r + n \<le> GoogleSheetsMaxColumns \<longrightarrow>
        (\<exists>r'. append_cols r n = Inr (True, r') \<and> valid r' \<and>
              end_col_int r' = end_col_int r + n \<and> end_col r' = c \<and>
              start_col r' = start_col r \<and> start_row r' = start_row r \<and> end_row r' = end_row r)"
  proof (intro impI, elim conjE)
    assume h: "cols_bounded r" "n \<noteq> 0" "sheet r \<noteq> []" "int_to_col (end_col_int r + n) = Inr c"
      "col_to_int c = end_col_int r + n" "start_col_int r \<le> end_col_int r + n"
      "end_col_int r + n \<le> GoogleSheetsMaxColumns"
    from sc_pos [OF h(1)] h(6) have pos: "0 < end_col_int r + n" by simp
    from append_cols_regenerated [OF wf h(1,3,2) pos h(7,4,5) refl] h(6)
    show "\<exists>r'. append_cols r n = Inr (True, r') \<and> valid r' \<and>
              end_col_int r' = end_col_int r + n \<and> end_col r' = c \<and>
              start_col r' = start_col r \<and> start_row r' = start_row r \<and> end_row r' = end_row r"
      by (simp add: valid_def)
  qed
  have d: "reduce_rows r n = append_rows r (- n)" "reduce_cols r n = append_cols r (- n)"
    by (simp_all add: reduce_rows_def reduce_cols_def)
  from r1 r2 r3 r4 c1 c2 c3 c4 c5 d show ?thesis
    by (intro conjI)
qed

theorem C6_counterexample:
  "valid (GoogleSheetsA1Notation ''test!C4:F5'') \<and>
   cols_bounded (GoogleSheetsA1Notation ''test!C4:F5'') \<and>
   end_col_int (GoogleSheetsA1Notation ''test!C4:F5'') + (- 5) = 1 \<and>
   append_cols (GoogleSheetsA1Notation ''test!C4:F5'') (- 5) =
     Inr (False, GoogleSheetsA1Notation ''test!C4:F5'')"
  by code_simp

theorem C6_append_amended_witness:
  "append_rows (GoogleSheetsA1Notation ''test!B:Z'') 3 = Inr (True, GoogleSheetsA1Notation ''test!B:Z'') \<and>
   append_rows (GoogleSheetsA1Notation ''test!C4:AB25'') (- 25) =
     Inr (False, GoogleSheetsA1Notation ''test!C4:AB25'') \<and>
   (\<exists>r'. append_rows (GoogleSheetsA1Notation ''test!C4:AB25'') 2 = Inr (True, r') \<and>
         valid r' \<and> end_row r' = 27) \<and>
   append_cols (GoogleSheetsA1Notation ''test!6:10'') 1 = Inr (True, GoogleSheetsA1Notation ''test!6:10'') \<and>
   append_cols (GoogleSheetsA1Notation ''test!C4:AB25'') (- 28) =
     Inr (False, GoogleSheetsA1Notation ''test!C4:AB25'') \<and>
   append_cols (GoogleSheetsA1Notation ''test!C4:F5'') (- 5) =
     Inr (False, GoogleSheetsA1Notation ''test!C4:F5'') \<and>
   (\<exists>r'. append_cols (GoogleSheetsA1Notation ''test!C4:AB22'') 10 = Inr (True, r') \<and>
         end_col r' = ''AL'' \<and> end_col_int r' = 38) \<and>
   reduce_rows (GoogleSheetsA1Notation ''test!C4:AB25'') 5 =
     append_rows (GoogleSheetsA1Notation ''test!C4:AB25'') (- 5)"
proof -
  let ?a = "GoogleSheetsA1Notation ''test!B:Z''"
  let ?b = "GoogleSheetsA1Notation ''test!C4:AB25''"
  let ?c = "GoogleSheetsA1Notation ''test!6:10''"
  let ?d = "GoogleSheetsA1Notation ''test!C4:F5''"
  let ?e = "GoogleSheetsA1Notation ''test!C4:AB22''"
  have va: "valid ?a" and na: "\<not> rows_bounded ?a" by code_simp+
  have vb: "valid ?b" and bb: "bounded ?b" "rows_bounded ?b" "cols_bounded ?b" "sheet ?b \<noteq> []"
    and eb: "end_row ?b = 25" "end_col_int ?b = 28"
    by code_simp+
  have vc: "valid ?c" and nc: "\<not> cols_bounded ?c" by code_simp+
  have vd: "valid ?d" and bd: "cols_bounded ?d" and ed: "end_col_int ?d = 6" "start_col_int ?d = 3"
    and cd: "int_to_col 1 = Inr ''A''" "col_to_int ''A'' = 1"
    by code_simp+
  have ve: "valid ?e" and be: "cols_bounded ?e" "sheet ?e \<noteq> []"
    and ee: "end_col_int ?e = 28" "start_col_int ?e = 3"
    and ce: "int_to_col 38 = Inr ''AL''" "col_to_int ''AL'' = 38"
    by code_simp+
  have m: "GoogleSheetsMaxColumns = 18278" by (simp add: GoogleSheetsMaxColumns_def)
  note k2 = conjunct2 [THEN conjunct1] and k3 = conjunct2 [THEN conjunct2, THEN conjunct1]
  note k4 = conjunct2 [THEN k3] and k5 = conjunct2 [THEN conjunct2, THEN k3]
  note k6 = conjunct2 [THEN k5] and k8 = conjunct2 [THEN conjunct2, THEN conjunct2, THEN k5]
  note k9 = conjunct2 [THEN k8] and k10 = conjunct2 [THEN conjunct2, THEN k8]
  from C6_append_amended [OF refl va, where n = 3 and c = "[]", THEN conjunct1] na
  have w1: "append_rows ?a 3 = Inr (True, ?a)" by blast
  from C6_append_amended [OF refl vb, where n = "- 25" and c = "[]", THEN k2] bb eb
  have w2: "append_rows ?b (- 25) = Inr (False, ?b)" by simp
  from C6_append_amended [OF refl vb, where n = 2 and c = "[]", THEN k4] bb eb
  have w3: "\<exists>r'. append_rows ?b 2 = Inr (True, r') \<and> valid r' \<and> end_row r' = 27" by auto
  from C6_append_amended [OF refl vc, where n = 1 and c = "[]", THEN k5] nc
  have w4: "append_cols ?c 1 = Inr (True, ?c)" by blast
  from C6_append_amended [OF refl vb, where n = "- 28" and c = "[]", THEN k6] bb eb
  have w5: "append_cols ?b (- 28) = Inr (False, ?b)" by simp
  from C6_append_amended [OF refl vd, where n = "- 5" and c = "''A''", THEN k8] bd ed cd
  have w6: "append_cols ?d (- 5) = Inr (False, ?d)" by simp
  from C6_append_amended [OF refl ve, where n = 10 and c = "''AL''", THEN k9] be ee ce m
  have w7: "\<exists>r'. append_cols ?e 10 = Inr (True, r') \<and> end_col r' = ''AL'' \<and> end_col_int r' = 38"
    by auto
  from C6_append_amended [OF refl vb, where n = 5 and c = "[]", THEN k10]
  have w8: "reduce_rows ?b 5 = append_rows ?b (- 5)" by blast
  from w1 w2 w3 w4 w5 w6 w7 w8 show ?thesis by (intro conjI)
qed

subsection \<open>Which strings are rejected\<close>

text \<open>
  Claim C3, as amended. For every string of code points below 256, with the character
  classes of Python's Unicode patterns (a title such as \<open>caf\<close> followed by e acute is a
  word), the constructor leaves the object invalid exactly when
  \<^item> neither the main pattern nor the title-only pattern matches; or
  \<^item> the main pattern matches with no start bound (no start column and no start row
    other than 0) and, on top of that, the title is missing or an end column or a
    non-zero end row is present; or
  \<^item> both column tokens are present and the end column index is below the start column
    index.
  Rows are not compared, so \<open>test!C4:BX2\<close> is valid. A start bound followed by an empty end
  side is valid (\<open>test!A1:\<close>), and so is the bare form \<open>Sheet1!\<close>; these two are the
  counterexample to the claim as written. \<open>test!:d3\<close>, \<open>test:\<close> and \<open>test!F2:A3\<close> are
  invalid.
\<close>

theorem C3_invalid_iff:
  assumes "r = GoogleSheetsA1Notation s"
  shows "\<not> valid r \<longleftrightarrow>
     (case a1_re s of
        None \<Rightarrow> sheet_only_re s = None
      | Some (t, sc, sr, ec, er) \<Rightarrow>
          (sc = [] \<and> int_of_str sr = 0 \<and> (t = [] \<or> ec \<noteq> [] \<or> int_of_str er \<noteq> 0)) \<or>
          (sc \<noteq> [] \<and> ec \<noteq> [] \<and> col_to_int ec < col_to_int sc))"
proof (cases "a1_re s")
  case None
  show ?thesis
  proof (cases "sheet_only_re s")
    case N: None
    with None show ?thesis
      unfolding assms new_valid_iff extract_a1_no_match [OF None]
      by (simp add: valid_dimensions_def)
  next
    case (Some g0)
    with None sheet_only_re_ne [OF Some] show ?thesis
      unfolding assms new_valid_iff extract_a1_no_match [OF None]
      by (simp add: valid_dimensions_def)
  qed
next
  case (Some g)
  obtain t sc sr ec er where g: "g = (t, sc, sr, ec, er)" by (cases g) auto
  note m = Some [unfolded g]
  note gr = a1_re_groups [OF m]
  have A: "col_to_int ''A'' \<le> col_to_int ec" if "ec \<noteq> []"
    using col_to_int_pos [OF gr(4) that] by (simp add: col_to_int_A)
  consider (a) "int_of_str sr \<noteq> 0" "sc = []" | (b) "sc \<noteq> []" "int_of_str sr = 0"
    | (c) "sc = []" "int_of_str sr = 0" | (d) "sc \<noteq> []" "int_of_str sr \<noteq> 0"
    by blast
  then have "valid_dimensions (extract_a1 s) \<longleftrightarrow>
      \<not> ((sc = [] \<and> int_of_str sr = 0 \<and> (t = [] \<or> ec \<noteq> [] \<or> int_of_str er \<noteq> 0)) \<or>
         (sc \<noteq> [] \<and> ec \<noteq> [] \<and> col_to_int ec < col_to_int sc))"
  proof cases
    case a
    then show ?thesis
      unfolding extract_a1_match [OF m] using A by (auto simp: valid_dimensions_def)
  next
    case b
    then show ?thesis
      unfolding extract_a1_match [OF m] by (auto simp: valid_dimensions_def)
  next
    case c
    then show ?thesis
      unfolding extract_a1_match [OF m] by (auto simp: valid_dimensions_def)
  next
    case d
    then show ?thesis
      unfolding extract_a1_match [OF m] by (auto simp: valid_dimensions_def)
  qed
  then show ?thesis
    unfolding assms new_valid_iff by (simp add: m) blast
qed

theorem C3_invalid_iff_witness:
  "\<not> valid (GoogleSheetsA1Notation ''test!:d3'') \<and>
   \<not> valid (GoogleSheetsA1Notation ''test:'') \<and>
   \<not> valid (GoogleSheetsA1Notation ''test!F2:A3'') \<and>
   \<not> valid (GoogleSheetsA1Notation ''test!:D3'') \<and>
   valid (GoogleSheetsA1Notation ''Sheet1!'') \<and>
   valid (GoogleSheetsA1Notation ''test!A1:'') \<and>
   valid (GoogleSheetsA1Notation ''test!C4:BX2'') \<and>
   valid (GoogleSheetsA1Notation (''caf'' @ [CHR 0xE9] @ ''!A1:B2''))"
proof -
  have n1: "a1_re ''test!:d3'' = None" "sheet_only_re ''test!:d3'' = None" by code_simp+
  have n2: "a1_re ''test:'' = None" "sheet_only_re ''test:'' = None" by code_simp+
  have n3: "a1_re ''test!F2:A3'' = Some (''test'', ''F'', ''2'', ''A'', ''3'')"
    "col_to_int ''A'' < col_to_int ''F''" by code_simp+
  have n4: "a1_re ''test!:D3'' = Some (''test'', [], [], ''D'', ''3'')" by code_simp
  have n5: "a1_re ''Sheet1!'' = Some (''Sheet1'', [], [], [], [])" by code_simp
  have n6: "a1_re ''test!A1:'' = Some (''test'', ''A'', ''1'', [], [])" by code_simp
  have n7: "a1_re ''test!C4:BX2'' = Some (''test'', ''C'', ''4'', ''BX'', ''2'')"
    "\<not> col_to_int ''BX'' < col_to_int ''C''" by code_simp+
  have n8: "a1_re (''caf'' @ [CHR 0xE9] @ ''!A1:B2'') =
      Some (''caf'' @ [CHR 0xE9], ''A'', ''1'', ''B'', ''2'')"
    "\<not> col_to_int ''B'' < col_to_int ''A''" by code_simp+
  have z: "int_of_str [] = 0" by (rule int_of_str_Nil)
  from C3_invalid_iff [OF refl, of "''test!:d3''"] n1
  have w1: "\<not> valid (GoogleSheetsA1Notation ''test!:d3'')" by simp
  from C3_invalid_iff [OF refl, of "''test:''"] n2
  have w2: "\<not> valid (GoogleSheetsA1Notation ''test:'')" by simp
  from C3_invalid_iff [OF refl, of "''test!F2:A3''"] n3
  have w3: "\<not> valid (GoogleSheetsA1Notation ''test!F2:A3'')" by simp
  from C3_invalid_iff [OF refl, of "''test!:D3''"] n4 z
  have w4: "\<not> valid (GoogleSheetsA1Notation ''test!:D3'')" by simp
  from C3_invalid_iff [OF refl, of "''Sheet1!''"] n5 z
  have w5: "valid (GoogleSheetsA1Notation ''Sheet1!'')" by simp
  from C3_invalid_iff [OF refl, of "''test!A1:''"] n6
  have w6: "valid (GoogleSheetsA1Notation ''test!A1:'')" by simp
  from C3_invalid_iff [OF refl, of "''test!C4:BX2''"] n7
  have w7: "valid (GoogleSheetsA1Notation ''test!C4:BX2'')" by simp
  from C3_invalid_iff [OF refl, of "''caf'' @ [CHR 0xE9] @ ''!A1:B2''"] n8
  have w8: "valid (GoogleSheetsA1Notation (''caf'' @ [CHR 0xE9] @ ''!A1:B2''))" by simp
  from w1 w2 w3 w4 w5 w6 w7 w8 show ?thesis by (intro conjI)
qed

theorem C3_counterexample:
  "valid (GoogleSheetsA1Notation ''Sheet1!'') \<and>
   a1_re ''Sheet1!'' = Some (''Sheet1'', [], [], [], []) \<and>
   valid (GoogleSheetsA1Notation ''test!A1:'') \<and>
   end_col (GoogleSheetsA1Notation ''test!A1:'') = [] \<and>
   end_row (GoogleSheetsA1Notation ''test!A1:'') = 0"
  by code_simp

subsection \<open>Inferred start bounds\<close>

text \<open>
  Claim C4: in every successfully parsed string with a bounds part (white space, an
  optional title with \<^verbatim>\<open>!\<close>, the four tokens around the colon, white space; lemma
  \<open>a1_re_shape\<close> shows that the pattern matches no other strings with bounds), a start
  row without a start column gives start column \<open>A\<close>, a start column without a start row
  gives start row 1, and the end column and end row are exactly the end tokens: an empty
  end token leaves that side unbounded. A start row is present when its token denotes a
  row, that is a number other than 0 (rows are 1-based and 0 stands for unbounded). The
  witness evaluates \<open>test!4:ASC\<close>: start column \<open>A\<close>, start row 4, end column \<open>ASC\<close>,
  end row 0.
\<close>

theorem C4_start_inference:
  assumes "list_all is_space ws" "list_all is_space w"
    and "tp = [] \<and> t = [] \<or> sheet_tok t \<and> tp = t @ [CHR 0x21]"
    and "cap3 sc" "digits sr" "cap3 ec" "digits er"
    and "s = ws @ tp @ sc @ sr @ [CHR 0x3A] @ ec @ er @ w"
    and "r = GoogleSheetsA1Notation s" "valid r"
  shows "(sc = [] \<and> int_of_str sr \<noteq> 0 \<longrightarrow> start_col r = ''A'' \<and> start_row r = int_of_str sr) \<and>
         (sc \<noteq> [] \<and> int_of_str sr = 0 \<longrightarrow> start_col r = sc \<and> start_row r = 1) \<and>
         (sc \<noteq> [] \<and> int_of_str sr \<noteq> 0 \<longrightarrow> start_col r = sc \<and> start_row r = int_of_str sr) \<and>
         (sc = [] \<and> int_of_str sr = 0 \<longrightarrow> start_col r = [] \<and> start_row r = 0) \<and>
         end_col r = ec \<and> end_row r = int_of_str er \<and>
         (ec = [] \<longrightarrow> end_col_int r = 0) \<and> (er = [] \<longrightarrow> end_row r = 0) \<and> sheet r = t"
proof -
  have "a1_re s = Some (t, sc, sr, ec, er)"
    unfolding assms(8) by (rule a1_re_build [OF assms(1-7)])
  from parsed_fields [OF assms(9,10) this] show ?thesis .
qed

theorem C4_start_inference_witness:
  "valid (GoogleSheetsA1Notation ''test!4:ASC'') \<and>
   start_col (GoogleSheetsA1Notation ''test!4:ASC'') = ''A'' \<and>
   start_row (GoogleSheetsA1Notation ''test!4:ASC'') = 4 \<and>
   end_col (GoogleSheetsA1Notation ''test!4:ASC'') = ''ASC'' \<and>
   end_row (GoogleSheetsA1Notation ''test!4:ASC'') = 0 \<and>
   start_col (GoogleSheetsA1Notation ''test!B:Z'') = ''B'' \<and>
   start_row (GoogleSheetsA1Notation ''test!B:Z'') = 1 \<and>
   end_col (GoogleSheetsA1Notation ''3:7'') = [] \<and>
   end_col_int (GoogleSheetsA1Notation ''3:7'') = 0"
proof -
  let ?a = "GoogleSheetsA1Notation ''test!4:ASC''"
  let ?b = "GoogleSheetsA1Notation ''test!B:Z''"
  let ?c = "GoogleSheetsA1Notation ''3:7''"
  have sp: "list_all is_space []" by simp
  have tk: "sheet_tok ''test''" "cap3 []" "cap3 ''ASC''" "cap3 ''B''" "cap3 ''Z''"
    "digits []" "digits ''4''" "digits ''3''" "digits ''7''"
    by code_simp+
  have ia: "int_of_str ''4'' = 4" "int_of_str [] = 0" by code_simp+
  have va: "valid ?a" and vb: "valid ?b" and vc: "valid ?c" by code_simp+
  have t1: "''test!'' = [] \<and> ''test'' = [] \<or> sheet_tok ''test'' \<and> ''test!'' = ''test'' @ [CHR 0x21]"
    using tk(1) by simp
  have t2: "([]::string) = [] \<and> ([]::string) = [] \<or> sheet_tok [] \<and> [] = [] @ [CHR 0x21]"
    by simp
  have "''test!4:ASC'' = [] @ ''test!'' @ [] @ ''4'' @ [CHR 0x3A] @ ''ASC'' @ [] @ []" by simp
  from C4_start_inference [OF sp sp t1 tk(2) tk(7) tk(3) tk(6) this refl va] ia
  have w1: "start_col ?a = ''A''" "start_row ?a = 4" "end_col ?a = ''ASC''" "end_row ?a = 0"
    by simp_all
  have "''test!B:Z'' = [] @ ''test!'' @ ''B'' @ [] @ [CHR 0x3A] @ ''Z'' @ [] @ []" by simp
  from C4_start_inference [OF sp sp t1 tk(4) tk(6) tk(5) tk(6) this refl vb] ia
  have w2: "start_col ?b = ''B''" "start_row ?b = 1" by simp_all
  have "''3:7'' = [] @ [] @ [] @ ''3'' @ [CHR 0x3A] @ [] @ ''7'' @ []" by simp
  from C4_start_inference [OF sp sp t2 tk(2) tk(8) tk(2) tk(9) this refl vc]
  have w3: "end_col ?c = []" "end_col_int ?c = 0" by simp_all
  from va w1 w2 w3 show ?thesis by (intro conjI)
qed

end
